theory Spec2Isabelle
  imports Main "HOL-Library.Word"
begin

section \<open>JavaScript values used by the process picker\<close>

subsection \<open>Strings\<close>

text \<open>
  A JavaScript string is a sequence of UTF-16 code units. \<open>length\<close>, \<open>split\<close>,
  \<open>includes\<close>, \<open>trim\<close> and a regular expression without the \<open>u\<close> flag all work on code
  units, so a string is a list of 16-bit words. \<open>js\<close> embeds an ASCII literal.
\<close>

type_synonym code_unit = "16 word"
type_synonym jsstring = "code_unit list"

definition js :: "string \<Rightarrow> jsstring" where
  "js s = map of_char s"

text \<open>
  The ECMAScript productions \<open>WhiteSpace\<close> and \<open>LineTerminator\<close>. The class escape
  \<open>\s\<close> and \<open>String.prototype.trim\<close> use their union; the atom \<open>.\<close> (no \<open>s\<close> flag)
  matches every code unit that is not a line terminator.
\<close>

definition isWhiteSpace :: "code_unit \<Rightarrow> bool" where
  "isWhiteSpace c \<longleftrightarrow>
     c = 0x9 \<or> c = 0xB \<or> c = 0xC \<or> c = 0x20 \<or> c = 0xA0 \<or> c = 0x1680 \<or>
     (0x2000 \<le> c \<and> c \<le> 0x200A) \<or> c = 0x202F \<or> c = 0x205F \<or> c = 0x3000 \<or>
     c = 0xFEFF"

definition isLineTerminator :: "code_unit \<Rightarrow> bool" where
  "isLineTerminator c \<longleftrightarrow> c = 0xA \<or> c = 0xD \<or> c = 0x2028 \<or> c = 0x2029"

definition isSpace :: "code_unit \<Rightarrow> bool" where
  "isSpace c \<longleftrightarrow> isWhiteSpace c \<or> isLineTerminator c"

definition isDecimalDigit :: "code_unit \<Rightarrow> bool" where
  "isDecimalDigit c \<longleftrightarrow> 0x30 \<le> c \<and> c \<le> 0x39"

text \<open>\<open>String.prototype.trim\<close>.\<close>

definition trim :: "jsstring \<Rightarrow> jsstring" where
  "trim s = rev (dropWhile isSpace (rev (dropWhile isSpace s)))"

text \<open>\<open>String.prototype.includes\<close>: the search string occurs at some position.\<close>

fun startsWith :: "jsstring \<Rightarrow> jsstring \<Rightarrow> bool" where
  "startsWith s [] = True"
| "startsWith [] (c # sub) = False"
| "startsWith (d # s) (c # sub) = (d = c \<and> startsWith s sub)"

fun includes_str :: "jsstring \<Rightarrow> jsstring \<Rightarrow> bool" where
  "includes_str [] sub = startsWith [] sub"
| "includes_str (d # s) sub = (startsWith (d # s) sub \<or> includes_str s sub)"

text \<open>
  \<open>String.prototype.split\<close> with a separator of one code unit: the pieces between the
  separators, in order; a string without separator is its own single piece.
\<close>

fun split_str :: "jsstring \<Rightarrow> code_unit \<Rightarrow> jsstring list" where
  "split_str [] sep = [] # []"
| "split_str (c # s) sep =
     (if c = sep then [] # split_str s sep
      else (case split_str s sep of l # ls \<Rightarrow> (c # l) # ls | [] \<Rightarrow> [c] # []))"

subsection \<open>Numbers\<close>

text \<open>
  The numbers of this program are the two column widths, a width minus one, and the
  result of \<open>Number\<close> on a string of decimal digits: integers, or an infinity when the
  digits overflow the binary64 range. A finite number is represented by its integer
  value. \<open>roundToDouble\<close> is IEEE 754 round-to-nearest, ties-to-even, on a natural
  number: \<open>None\<close> stands for overflow.
\<close>

datatype jsnumber = Finite int | PosInfinity | NegInfinity

fun bitLength :: "nat \<Rightarrow> nat" where
  "bitLength n = (if n = 0 then 0 else Suc (bitLength (n div 2)))"

definition roundToDouble :: "nat \<Rightarrow> nat option" where
  "roundToDouble n =
     (if n < 2 ^ 53 then Some n
      else
        let e = bitLength n - 53;
            q = n div 2 ^ e;
            r = n mod 2 ^ e;
            q' = (if 2 ^ (e - 1) < r \<or> (r = 2 ^ (e - 1) \<and> odd q) then Suc q else q)
        in if 2 ^ 1024 \<le> q' * 2 ^ e then None else Some (q' * 2 ^ e))"

text \<open>The Number value of a mathematical integer.\<close>

definition toNumber :: "int \<Rightarrow> jsnumber" where
  "toNumber i =
     (case roundToDouble (nat \<bar>i\<bar>) of
        None \<Rightarrow> (if i < 0 then NegInfinity else PosInfinity)
      | Some m \<Rightarrow> Finite (if i < 0 then - int m else int m))"

definition digitChar :: "nat \<Rightarrow> code_unit" where
  "digitChar d = 0x30 + of_nat d"

function decimal :: "nat \<Rightarrow> jsstring" where
  "decimal n = (if n < 10 then [digitChar n] else decimal (n div 10) @ [digitChar (n mod 10)])"
  by pat_completeness auto
termination
  by (relation "measure id") auto

declare decimal.simps [simp del]

definition digitsValue :: "jsstring \<Rightarrow> nat" where
  "digitsValue ds = foldl (\<lambda>a c. 10 * a + unat (c - 0x30)) 0 ds"

text \<open>
  \<open>Number::toString\<close> prints the decimal numeral with the fewest significant digits
  that still denotes the number, the closest one if there are several. Up to \<open>2 ^ 53\<close>
  every integer is a Number of its own and that numeral is the integer itself. Above,
  \<open>shortest\<close> looks for the least count \<open>k\<close> of significant digits such that the
  multiple of \<open>10 ^ (digits - k)\<close> just below or just above the number rounds to it.
  A numeral of more than 21 digits is printed in exponent notation.
\<close>

definition candidates :: "nat \<Rightarrow> nat \<Rightarrow> nat list" where
  "candidates x e =
     (let s = x div 10 ^ e; lo = s * 10 ^ e; hi = lo + 10 ^ e
      in if x - lo < hi - x \<or> (x - lo = hi - x \<and> even s) then [lo, hi] else [hi, lo])"

definition shortest :: "nat \<Rightarrow> nat" where
  "shortest x =
     (if x \<le> 2 ^ 53 then x
      else hd (concat (map (\<lambda>k. filter (\<lambda>v. roundToDouble v = Some x)
                                   (candidates x (length (decimal x) - k)))
                           [1..<length (decimal x)]) @ [x]))"

definition stripZeros :: "jsstring \<Rightarrow> jsstring" where
  "stripZeros ds = rev (dropWhile (\<lambda>c. c = 0x30) (rev ds))"

definition natToString :: "nat \<Rightarrow> jsstring" where
  "natToString x =
     (let ds = decimal (shortest x)
      in if length ds \<le> 21 then ds
         else (case stripZeros ds of
                 [] \<Rightarrow> ds
               | d # fs \<Rightarrow> d # (if fs = [] then [] else 0x2E # fs)
                            @ js ''e+'' @ decimal (length ds - 1)))"

fun ToString :: "jsnumber \<Rightarrow> jsstring" where
  "ToString (Finite i) = (if i < 0 then 0x2D # natToString (nat (- i)) else natToString (nat i))"
| "ToString PosInfinity = js ''Infinity''"
| "ToString NegInfinity = js ''-Infinity''"

subsection \<open>Errors\<close>

text \<open>
  \<open>Error m\<close> is \<open>new Error(m)\<close>; \<open>SyntaxError\<close> is what the \<open>RegExp\<close> constructor
  throws on a malformed pattern, \<open>TypeError\<close> what a method call on \<open>undefined\<close>
  throws, and \<open>RangeError\<close> what \<open>exec\<close> throws when the engine has no room left for
  the backtracking. \<open>Unmodelled\<close> marks the inputs of a library function that this development
  does not describe (pattern syntax the program never writes, \<open>Number\<close> on a string
  that is not a digit sequence); the theorems below show that the program never
  reaches them.
\<close>

datatype error =
    Error jsstring
  | SyntaxError
  | TypeError
  | RangeError
  | Unmodelled

section \<open>Regular expressions\<close>

text \<open>
  The part of the ECMAScript pattern language (with the Annex B extensions that a
  pattern without the \<open>u\<close> flag gets) that the patterns of this program are written
  in: the assertions \<open>^\<close> and \<open>$\<close>, the atoms \<open>.\<close>, \<open>\s\<close>, a class of ranges, a literal
  character and a capturing group, and the greedy quantifiers \<open>*\<close>, \<open>+\<close>, \<open>?\<close>,
  \<open>{n}\<close>, \<open>{n,}\<close> and \<open>{n,m}\<close>.
\<close>

datatype charset =
    AnyChar
  | WhiteSpaceClass
  | ClassRanges "(code_unit \<times> code_unit) list"
  | Literal code_unit

fun charset_mem :: "charset \<Rightarrow> code_unit \<Rightarrow> bool" where
  "charset_mem AnyChar c = (\<not> isLineTerminator c)"
| "charset_mem WhiteSpaceClass c = isSpace c"
| "charset_mem (ClassRanges rs) c = (\<exists>(lo, hi) \<in> set rs. lo \<le> c \<and> c \<le> hi)"
| "charset_mem (Literal a) c = (c = a)"

datatype regex =
    Empty
  | Chars charset
  | AssertStart
  | AssertEnd
  | Seq regex regex
  | Group nat regex
  | Repeat nat "nat option" regex

subsection \<open>Reading a pattern\<close>

datatype token =
    TAtom charset
  | TStart
  | TEnd
  | TOpen
  | TClose
  | TQuant nat "nat option"

text \<open>
  \<open>lex_brace\<close> reads what follows a \<open>{\<close>. Only \<open>digits}\<close>, \<open>digits,}\<close> and
  \<open>digits,digits}\<close> make a quantifier; after anything else the brace is an ordinary
  character (Annex B, \<open>ExtendedPatternCharacter\<close>).
\<close>

definition lex_brace :: "jsstring \<Rightarrow> (error + nat \<times> nat option \<times> jsstring) option" where
  "lex_brace s =
     (let ds = takeWhile isDecimalDigit s; r = dropWhile isDecimalDigit s
      in if ds = [] then None
         else (case r of
                 [] \<Rightarrow> None
               | c # r' \<Rightarrow>
                   if c = 0x7D then Some (Inr (digitsValue ds, Some (digitsValue ds), r'))
                   else if c = 0x2C then
                     (let ds2 = takeWhile isDecimalDigit r'; r2 = dropWhile isDecimalDigit r'
                      in case r2 of
                           [] \<Rightarrow> None
                         | c2 # r2' \<Rightarrow>
                             if c2 \<noteq> 0x7D then None
                             else if ds2 = [] then Some (Inr (digitsValue ds, None, r2'))
                             else if digitsValue ds2 < digitsValue ds then Some (Inl SyntaxError)
                             else Some (Inr (digitsValue ds, Some (digitsValue ds2), r2')))
                   else None))"

fun lex_class :: "jsstring \<Rightarrow> (code_unit \<times> code_unit) list \<Rightarrow>
    error + (code_unit \<times> code_unit) list \<times> jsstring" where
  "lex_class [] acc = Inl SyntaxError"
| "lex_class (c # cs) acc =
     (if c = 0x5D then Inr (rev acc, cs)
      else if c = 0x5C then Inl Unmodelled
      else (case cs of
              d # e # cs' \<Rightarrow>
                if d = 0x2D \<and> e \<noteq> 0x5D then
                  (if e = 0x5C then Inl Unmodelled
                   else if e < c then Inl SyntaxError
                   else lex_class cs' ((c, e) # acc))
                else lex_class cs ((c, c) # acc)
            | _ \<Rightarrow> lex_class cs ((c, c) # acc)))"

text \<open>A \<open>?\<close> after a quantifier or an opening parenthesis starts syntax left unmodelled.\<close>

definition not_lazy :: "jsstring \<Rightarrow> bool" where
  "not_lazy r \<longleftrightarrow> (case r of [] \<Rightarrow> True | c # _ \<Rightarrow> c \<noteq> 0x3F)"

definition cons_tok :: "token \<Rightarrow> error + token list \<Rightarrow> error + token list" where
  "cons_tok t r = (case r of Inl e \<Rightarrow> Inl e | Inr ts \<Rightarrow> Inr (t # ts))"

function lex :: "jsstring \<Rightarrow> error + token list" where
  "lex [] = Inr []"
| "lex (c # cs) =
     (if c = 0x5C then
        (case cs of
           [] \<Rightarrow> Inl SyntaxError
         | d # ds \<Rightarrow> if d = 0x73 then cons_tok (TAtom WhiteSpaceClass) (lex ds) else Inl Unmodelled)
      else if c = 0x5B then
        (case cs of
           [] \<Rightarrow> Inl SyntaxError
         | d # ds \<Rightarrow>
             if d = 0x5E then Inl Unmodelled
             else (case lex_class cs [] of
                     Inl e \<Rightarrow> Inl e
                   | Inr (rs, r) \<Rightarrow> cons_tok (TAtom (ClassRanges rs)) (lex r)))
      else if c = 0x7B then
        (case lex_brace cs of
           None \<Rightarrow> cons_tok (TAtom (Literal c)) (lex cs)
         | Some (Inl e) \<Rightarrow> Inl e
         | Some (Inr (mn, mx, r)) \<Rightarrow>
             if not_lazy r then cons_tok (TQuant mn mx) (lex r) else Inl Unmodelled)
      else if c = 0x28 then
        (if not_lazy cs then cons_tok TOpen (lex cs) else Inl Unmodelled)
      else if c = 0x29 then cons_tok TClose (lex cs)
      else if c = 0x2A then
        (if not_lazy cs then cons_tok (TQuant 0 None) (lex cs) else Inl Unmodelled)
      else if c = 0x2B then
        (if not_lazy cs then cons_tok (TQuant 1 None) (lex cs) else Inl Unmodelled)
      else if c = 0x3F then
        (if not_lazy cs then cons_tok (TQuant 0 (Some 1)) (lex cs) else Inl Unmodelled)
      else if c = 0x5E then cons_tok TStart (lex cs)
      else if c = 0x24 then cons_tok TEnd (lex cs)
      else if c = 0x2E then cons_tok (TAtom AnyChar) (lex cs)
      else if c = 0x7C then Inl Unmodelled
      else cons_tok (TAtom (Literal c)) (lex cs))"
  by pat_completeness auto
termination
proof (relation "measure length", goal_cases)
  case 1
  show ?case by simp
next
  case (2 c cs d ds)
  then show ?case by simp
next
  case (3 c cs d ds x rs r)
  have "\<And>s acc rs r. lex_class s acc = Inr (rs, r) \<Longrightarrow> length r < Suc (length s)"
  proof -
    fix s acc rs r
    show "lex_class s acc = Inr (rs, r) \<Longrightarrow> length r < Suc (length s)"
      by (induction s acc rule: lex_class.induct) (auto split: if_splits list.splits)
  qed
  from this [of cs "[]" rs r] 3 show ?case by (simp del: lex_class.simps)
next
  case (4 c cs)
  then show ?case by simp
next
  case (5 c cs x y mn z mx r)
  have a: "length (dropWhile isDecimalDigit cs) \<le> length cs"
    by (rule length_dropWhile_le)
  have b: "length (dropWhile isDecimalDigit (tl (dropWhile isDecimalDigit cs)))
             \<le> length (tl (dropWhile isDecimalDigit cs))"
    by (rule length_dropWhile_le)
  have "lex_brace cs = Some (Inr (mn, mx, r))" using 5 by simp
  then have "length r < Suc (length cs)"
    using a b by (auto simp: lex_brace_def Let_def split: if_splits list.splits)
  then show ?case by simp
qed simp_all

text \<open>
  \<open>parse\<close> builds the syntax tree. \<open>stk\<close> holds the enclosing sequences with the
  number of the group being read, \<open>cur\<close> the terms of the current sequence, last one
  first, and \<open>k\<close> counts the opening parentheses: groups are numbered in the order of
  their opening parenthesis. A quantifier applies to the term just read, which must be
  an atom.
\<close>

fun seqs :: "regex list \<Rightarrow> regex" where
  "seqs [] = Empty"
| "seqs [a] = a"
| "seqs (a # b # bs) = Seq a (seqs (b # bs))"

fun quantifiable :: "regex \<Rightarrow> bool" where
  "quantifiable (Chars cs) = True"
| "quantifiable (Group k a) = True"
| "quantifiable _ = False"

fun parse :: "(regex list \<times> nat) list \<Rightarrow> regex list \<Rightarrow> nat \<Rightarrow> token list \<Rightarrow> error + regex" where
  "parse stk cur k [] = (if stk = [] then Inr (seqs (rev cur)) else Inl SyntaxError)"
| "parse stk cur k (TAtom cs # ts) = parse stk (Chars cs # cur) k ts"
| "parse stk cur k (TStart # ts) = parse stk (AssertStart # cur) k ts"
| "parse stk cur k (TEnd # ts) = parse stk (AssertEnd # cur) k ts"
| "parse stk cur k (TOpen # ts) = parse ((cur, Suc k) # stk) [] (Suc k) ts"
| "parse stk cur k (TClose # ts) =
     (case stk of
        [] \<Rightarrow> Inl SyntaxError
      | (outer, g) # stk' \<Rightarrow> parse stk' (Group g (seqs (rev cur)) # outer) k ts)"
| "parse stk cur k (TQuant mn mx # ts) =
     (case cur of
        [] \<Rightarrow> Inl SyntaxError
      | a # cur' \<Rightarrow>
          if quantifiable a then parse stk (Repeat mn mx a # cur') k ts else Inl SyntaxError)"

text \<open>\<open>new RegExp(pattern)\<close>.\<close>

definition RegExp :: "jsstring \<Rightarrow> error + regex" where
  "RegExp pattern = (case lex pattern of Inl e \<Rightarrow> Inl e | Inr ts \<Rightarrow> parse [] [] 0 ts)"

subsection \<open>Matching\<close>

text \<open>
  The matching that ECMAScript specifies, which knows no limit of resources. A match
  state is the end index, the input that remains from there, and the captures (index
  0 is filled in by \<open>exec\<close>). \<open>ecma_matcher r x\<close> lists every way of matching \<open>r\<close>
  from state \<open>x\<close>, in the order in which the backtracking matcher of ECMAScript tries
  them, so that the first way that lets the rest of the pattern match is the first
  element of the list for the whole pattern. A greedy quantifier tries one more
  iteration before it tries to stop; an iteration clears the captures of the groups
  inside the repeated atom, and an iteration beyond the minimum that consumes nothing
  fails.
\<close>

type_synonym mstate = "nat \<times> jsstring \<times> jsstring option list"

fun rsize :: "regex \<Rightarrow> nat" where
  "rsize (Seq a b) = Suc (rsize a + rsize b)"
| "rsize (Group k a) = Suc (rsize a)"
| "rsize (Repeat mn mx a) = Suc (rsize a)"
| "rsize _ = 0"

fun rmin :: "regex \<Rightarrow> nat" where
  "rmin (Repeat mn mx a) = mn"
| "rmin _ = 0"

fun groups :: "regex \<Rightarrow> nat list" where
  "groups (Seq a b) = groups a @ groups b"
| "groups (Group k a) = k # groups a"
| "groups (Repeat mn mx a) = groups a"
| "groups _ = []"

definition clear :: "nat list \<Rightarrow> jsstring option list \<Rightarrow> jsstring option list" where
  "clear ks caps = fold (\<lambda>k cs. cs[k := None]) ks caps"

function ecma_matcher :: "regex \<Rightarrow> mstate \<Rightarrow> mstate list" where
  "ecma_matcher Empty x = [x]"
| "ecma_matcher (Chars cs) (e, inp, caps) =
     (case inp of
        [] \<Rightarrow> []
      | c # inp' \<Rightarrow> if charset_mem cs c then [(Suc e, inp', caps)] else [])"
| "ecma_matcher AssertStart (e, inp, caps) = (if e = 0 then [(e, inp, caps)] else [])"
| "ecma_matcher AssertEnd (e, inp, caps) = (if inp = [] then [(e, inp, caps)] else [])"
| "ecma_matcher (Seq a b) x = concat (map (ecma_matcher b) (ecma_matcher a x))"
| "ecma_matcher (Group k a) (e, inp, caps) =
     map (\<lambda>(e', inp', caps'). (e', inp', caps'[k := Some (take (e' - e) inp)]))
       (ecma_matcher a (e, inp, caps))"
| "ecma_matcher (Repeat mn mx a) (e, inp, caps) =
     (if mx = Some 0 then [(e, inp, caps)]
      else concat (map (\<lambda>(e', inp', caps').
                     if mn = 0 \<and> length inp \<le> length inp' then []
                     else ecma_matcher (Repeat (mn - 1) (map_option (\<lambda>m. m - 1) mx) a) (e', inp', caps'))
                   (ecma_matcher a (e, inp, clear (groups a) caps)))
           @ (if mn = 0 then [(e, inp, caps)] else []))"
  by pat_completeness auto
termination
  by (relation "measures [\<lambda>(r, x). rsize r, \<lambda>(r, x). rmin r, \<lambda>(r, e, inp, caps). length inp]") auto

text \<open>
  \<open>RegExp.prototype.exec\<close> of a pattern without flags, as ECMAScript specifies it: the
  match is tried at index 0, then 1, and so on up to the length of the string; the
  result is the array of the whole match and the captures, or \<open>None\<close> for \<open>null\<close>.
\<close>

fun ecma_exec_from :: "regex \<Rightarrow> nat \<Rightarrow> jsstring \<Rightarrow> jsstring option list option" where
  "ecma_exec_from r i inp =
     (case ecma_matcher r (i, inp, replicate (Suc (length (groups r))) None) of
        (e, inp', caps) # _ \<Rightarrow> Some (caps[0 := Some (take (e - i) inp)])
      | [] \<Rightarrow> (case inp of [] \<Rightarrow> None | c # inp'' \<Rightarrow> ecma_exec_from r (Suc i) inp''))"

declare ecma_exec_from.simps [simp del]

definition ecma_exec :: "regex \<Rightarrow> jsstring \<Rightarrow> jsstring option list option" where
  "ecma_exec r s = ecma_exec_from r 0 s"

subsection \<open>The backtracking stack of the engine\<close>

text \<open>
  The program runs on V8, the engine of Node.js and Visual Studio Code. V8 keeps the
  backtracking points on a stack of at most 64 MiB, and \<open>exec\<close> throws a \<open>RangeError\<close>
  when that stack is exhausted. What the stack holds depends on how the engine runs
  a repetition. A repetition of a character class without a count (\<open>*\<close>, \<open>+\<close>) is
  run in place and keeps nothing for its iterations, and a count of up to three is
  unrolled. A larger count is run as a loop with a counter; each iteration of such a
  loop keeps about 12 bytes on the stack until the match is over or backtracks past
  the iteration, and the stack is exhausted when iteration number 5592377 begins. The
  repetitions of character classes are the only ones in the patterns of this program,
  and the only ones whose use of the stack is described here.

  \<open>stackLimit\<close> is the number of iterations of counted loops that the stack holds.
  \<open>counted running mn mx\<close> tells whether an iteration of the repetition with the counts
  \<open>mn\<close> and \<open>mx\<close> is one of a counted loop: the loop is already \<open>running\<close> as one, or
  the compiler makes it one because of its counts.
\<close>

definition stackLimit :: nat where
  "stackLimit = 5592376"

definition counted :: "bool \<Rightarrow> nat \<Rightarrow> nat option \<Rightarrow> bool" where
  "counted running mn mx \<longleftrightarrow>
     running \<or> 3 < mn \<or> (case mx of None \<Rightarrow> False | Some m \<Rightarrow> 3 < m - mn)"

text \<open>
  The matcher of the engine. Its state has a fourth component, the number of
  iterations of counted loops whose backtracking points are on the stack, and an
  element \<open>None\<close> in its result is the exhaustion of the stack on the way that the
  element stands for. The matcher tries the ways in the order of the list and stops at
  the first one that succeeds or exhausts the stack, so only the first element of the
  list for the whole pattern decides what \<open>exec\<close> does.
\<close>

type_synonym estate = "nat \<times> jsstring \<times> jsstring option list \<times> nat"

function matcher :: "bool \<Rightarrow> regex \<Rightarrow> estate \<Rightarrow> estate option list" where
  "matcher k Empty x = [Some x]"
| "matcher k (Chars cs) (e, inp, caps, n) =
     (case inp of
        [] \<Rightarrow> []
      | c # inp' \<Rightarrow> if charset_mem cs c then [Some (Suc e, inp', caps, n)] else [])"
| "matcher k AssertStart (e, inp, caps, n) = (if e = 0 then [Some (e, inp, caps, n)] else [])"
| "matcher k AssertEnd (e, inp, caps, n) = (if inp = [] then [Some (e, inp, caps, n)] else [])"
| "matcher k (Seq a b) x =
     concat (map (\<lambda>y. case y of None \<Rightarrow> [None] | Some x' \<Rightarrow> matcher False b x')
               (matcher False a x))"
| "matcher k (Group g a) (e, inp, caps, n) =
     map (map_option (\<lambda>(e', inp', caps', n'). (e', inp', caps'[g := Some (take (e' - e) inp)], n')))
       (matcher False a (e, inp, caps, n))"
| "matcher k (Repeat mn mx a) (e, inp, caps, n) =
     (if mx = Some 0 then [Some (e, inp, caps, n)]
      else if counted k mn mx \<and> stackLimit \<le> n then [None]
      else concat (map (\<lambda>y. case y of
                         None \<Rightarrow> [None]
                       | Some (e', inp', caps', n') \<Rightarrow>
                           if mn = 0 \<and> length inp \<le> length inp' then []
                           else matcher (counted k mn mx)
                                  (Repeat (mn - 1) (map_option (\<lambda>m. m - 1) mx) a)
                                  (e', inp', caps', n'))
                   (matcher False a
                      (e, inp, clear (groups a) caps, if counted k mn mx then Suc n else n)))
           @ (if mn = 0 then [Some (e, inp, caps, n)] else []))"
  by pat_completeness auto
termination
  by (relation "measures [\<lambda>(k, r, x). rsize r, \<lambda>(k, r, x). rmin r,
                          \<lambda>(k, r, e, inp, caps, n). length inp]") auto

text \<open>
  \<open>RegExp.prototype.exec\<close> of a pattern without flags, as the engine runs it: the match
  is tried at index 0, then 1, and so on up to the length of the string, each time
  with an empty stack. The result is the array of the whole match and the captures,
  \<open>None\<close> for \<open>null\<close>, or the \<open>RangeError\<close> thrown.
\<close>

fun exec_from :: "regex \<Rightarrow> nat \<Rightarrow> jsstring \<Rightarrow> error + jsstring option list option" where
  "exec_from r i inp =
     (case matcher False r (i, inp, replicate (Suc (length (groups r))) None, 0) of
        Some (e, inp', caps, n) # _ \<Rightarrow> Inr (Some (caps[0 := Some (take (e - i) inp)]))
      | None # _ \<Rightarrow> Inl RangeError
      | [] \<Rightarrow> (case inp of [] \<Rightarrow> Inr None | c # inp'' \<Rightarrow> exec_from r (Suc i) inp''))"

declare exec_from.simps [simp del]

definition RegExp_exec :: "regex \<Rightarrow> jsstring \<Rightarrow> error + jsstring option list option" where
  "RegExp_exec r s = exec_from r 0 s"

section \<open>The process picker\<close>

text \<open>
  \<open>ProcessItem\<close> is a \<open>vscode.QuickPickItem\<close> (label, description, detail) with the
  number \<open>pid\<close>.
\<close>

record ProcessItem =
  pid :: jsnumber
  label :: jsstring
  description :: jsstring
  detail :: jsstring

text \<open>\<open>Number(s)\<close>, described for the strings of decimal digits.\<close>

definition Number :: "jsstring \<Rightarrow> error + jsnumber" where
  "Number s =
     (if s \<noteq> [] \<and> list_all isDecimalDigit s then Inr (toNumber (int (digitsValue s)))
      else Inl Unmodelled)"

text \<open>\<open>m.trim()\<close> on an element of the match array, which is a string or \<open>undefined\<close>.\<close>

definition trim_method :: "jsstring option \<Rightarrow> error + jsstring" where
  "trim_method v = (case v of None \<Rightarrow> Inl TypeError | Some s \<Rightarrow> Inr (trim s))"

text \<open>
  The template literal that \<open>parseLineFromPs\<close> passes to \<open>new RegExp\<close>, with both
  \<open>${... - 1}\<close> substituted; \<open>0x5C\<close> is the backslash. The widths are the integers among
  the values of the TypeScript type \<open>number\<close>.
\<close>

definition psEntry_source :: "int \<Rightarrow> int \<Rightarrow> jsstring" where
  "psEntry_source usernameCharacters commandCharacters =
     js ''^'' @ 0x5C # js ''s*([0-9]+)'' @ 0x5C # js ''s+(.{''
     @ ToString (toNumber (usernameCharacters - 1))
     @ js ''})'' @ 0x5C # js ''s+(.{''
     @ ToString (toNumber (commandCharacters - 1))
     @ js ''})'' @ 0x5C # js ''s+(.*)$''"

text \<open>
  \<open>parseLineFromPs\<close> in two steps. \<open>psCaptures\<close> is the function up to its four local
  constants \<open>pid\<close>, \<open>username\<close>, \<open>executable\<close> and \<open>cmdline\<close>; \<open>parseLineFromPs\<close>
  builds the item from them. \<open>Inr None\<close> is the result \<open>undefined\<close>. The function has
  no \<open>try\<close>: what \<open>new RegExp\<close>, \<open>exec\<close> or \<open>trim\<close> throws leaves it.
\<close>

definition psCaptures ::
  "jsstring \<Rightarrow> int \<Rightarrow> int \<Rightarrow> error + (jsstring \<times> jsstring \<times> jsstring \<times> jsstring) option" where
  "psCaptures line usernameCharacters commandCharacters =
     (case RegExp (psEntry_source usernameCharacters commandCharacters) of
        Inl e \<Rightarrow> Inl e
      | Inr psEntry \<Rightarrow>
          (case RegExp_exec psEntry line of
             Inl e \<Rightarrow> Inl e
           | Inr None \<Rightarrow> Inr None
           | Inr (Some matches) \<Rightarrow>
               if length matches = 5 then
                 (case trim_method (matches ! 1) of Inl e \<Rightarrow> Inl e | Inr pid_text \<Rightarrow>
                 (case trim_method (matches ! 2) of Inl e \<Rightarrow> Inl e | Inr username \<Rightarrow>
                 (case trim_method (matches ! 3) of Inl e \<Rightarrow> Inl e | Inr executable \<Rightarrow>
                 (case trim_method (matches ! 4) of Inl e \<Rightarrow> Inl e | Inr cmdline \<Rightarrow>
                    Inr (Some (pid_text, username, executable, cmdline))))))
               else Inr None))"

definition parseLineFromPs :: "jsstring \<Rightarrow> int \<Rightarrow> int \<Rightarrow> error + ProcessItem option" where
  "parseLineFromPs line usernameCharacters commandCharacters =
     (case psCaptures line usernameCharacters commandCharacters of
        Inl e \<Rightarrow> Inl e
      | Inr None \<Rightarrow> Inr None
      | Inr (Some (pid_text, username, executable, cmdline)) \<Rightarrow>
          (case Number pid_text of
             Inl e \<Rightarrow> Inl e
           | Inr n \<Rightarrow>
               Inr (Some \<lparr> pid = n,
                           label = username @ js '':'' @ executable,
                           description = pid_text,
                           detail = cmdline \<rparr>)))"

text \<open>
  The promisified \<open>child_process.exec\<close> either rejects, and \<open>await\<close> throws the error,
  or resolves to an object with the two properties \<open>stdout\<close> and \<open>stderr\<close>.
\<close>

datatype exec_outcome = Resolved jsstring jsstring | Rejected error

text \<open>The \<open>for\<close> loop of \<open>getAttachItems\<close> over the lines of the output.\<close>

function attach_loop ::
  "jsstring list \<Rightarrow> int \<Rightarrow> int \<Rightarrow> nat \<Rightarrow> ProcessItem list \<Rightarrow> error + ProcessItem list" where
  "attach_loop output usernameCharacters commandCharacters i quickPickList =
     (if i < length output then
        (let line = output ! i
         in if line \<noteq> [] then
              (case parseLineFromPs line usernameCharacters commandCharacters of
                 Inl e \<Rightarrow> Inl e
               | Inr None \<Rightarrow>
                   attach_loop output usernameCharacters commandCharacters (i + 1) quickPickList
               | Inr (Some processEntry) \<Rightarrow>
                   attach_loop output usernameCharacters commandCharacters (i + 1)
                     (quickPickList @ [processEntry]))
            else attach_loop output usernameCharacters commandCharacters (i + 1) quickPickList)
      else Inr quickPickList)"
  by pat_completeness auto
termination
  by (relation "measure (\<lambda>(output, u, c, i, q). length output - i)") auto

declare attach_loop.simps [simp del]

text \<open>
  \<open>getAttachItems\<close>. Its parameter \<open>exec\<close> stands for the command execution facility:
  it maps the command line to what running it did. The resolved object has no property
  \<open>error\<close>, so the test \<open>error || stderr\<close> is the test that \<open>stderr\<close> is not empty.
\<close>

definition getAttachItems :: "(jsstring \<Rightarrow> exec_outcome) \<Rightarrow> error + ProcessItem list" where
  "getAttachItems exec =
     (let usernameCharacters = 20; commandCharacters = 50
      in case exec (js ''ps -ax -o pid,uname:'' @ ToString (toNumber usernameCharacters)
                    @ js '',comm:'' @ ToString (toNumber commandCharacters) @ js '',args'') of
           Rejected e \<Rightarrow> Inl e
         | Resolved stdout stderr \<Rightarrow>
             if stderr \<noteq> [] \<and> \<not> (stderr \<noteq> [] \<and> includes_str stderr (js ''screen size is bogus''))
             then Inl (Error (js ''Unable to select process to attach to: '' @ stderr))
             else attach_loop (split_str stdout 0xA) usernameCharacters commandCharacters 1 [])"

text \<open>
  \<open>chooseProcess\<close> and \<open>pickProcess\<close>. \<open>showQuickPick\<close> stands for the chooser: given
  the items it returns the chosen one, or \<open>None\<close> when the list is dismissed.
\<close>

definition chooseProcess ::
  "(jsstring \<Rightarrow> exec_outcome) \<Rightarrow> (ProcessItem list \<Rightarrow> ProcessItem option) \<Rightarrow> error + ProcessItem" where
  "chooseProcess exec showQuickPick =
     (case getAttachItems exec of
        Inl e \<Rightarrow> Inl e
      | Inr items \<Rightarrow>
          (case showQuickPick items of
             None \<Rightarrow> Inl (Error (js ''Process not selected''))
           | Some process \<Rightarrow> Inr process))"

definition pickProcess ::
  "(jsstring \<Rightarrow> exec_outcome) \<Rightarrow> (ProcessItem list \<Rightarrow> ProcessItem option) \<Rightarrow> error + jsstring" where
  "pickProcess exec showQuickPick =
     (case chooseProcess exec showQuickPick of
        Inl e \<Rightarrow> Inl e
      | Inr processToReturn \<Rightarrow>
          Inr (ToString (pid processToReturn) @ js '':'' @ label processToReturn))"

section \<open>Notions used in the statements and proofs\<close>

text \<open>
  The syntax tree of the pattern of \<open>parseLineFromPs\<close>, with the bodies of its second
  and third group left open: they depend on the widths.
\<close>

definition psAst :: "regex \<Rightarrow> regex \<Rightarrow> regex" where
  "psAst b2 b3 =
     Seq AssertStart
    (Seq (Repeat 0 None (Chars WhiteSpaceClass))
    (Seq (Group 1 (Repeat 1 None (Chars (ClassRanges [(0x30, 0x39)]))))
    (Seq (Repeat 1 None (Chars WhiteSpaceClass))
    (Seq (Group 2 b2)
    (Seq (Repeat 1 None (Chars WhiteSpaceClass))
    (Seq (Group 3 b3)
    (Seq (Repeat 1 None (Chars WhiteSpaceClass))
    (Seq (Group 4 (Repeat 0 None (Chars AnyChar)))
         AssertEnd))))))))"

text \<open>The length of the longest prefix of the input made of characters of a class.\<close>

definition run :: "charset \<Rightarrow> jsstring \<Rightarrow> nat" where
  "run cs inp = length (takeWhile (charset_mem cs) inp)"

text \<open>
  \<open>consumes r P\<close>: every way of matching \<open>r\<close>, as ECMAScript specifies the matching,
  consumes a prefix of the input that satisfies \<open>P\<close> and leaves the captures as they
  were.
\<close>

definition consumes :: "regex \<Rightarrow> (jsstring \<Rightarrow> bool) \<Rightarrow> bool" where
  "consumes r P \<longleftrightarrow>
     (\<forall>e inp caps st. st \<in> set (ecma_matcher r (e, inp, caps)) \<longrightarrow>
        (\<exists>x rest. inp = x @ rest \<and> P x \<and> st = (e + length x, rest, caps)))"

text \<open>A string without leading and without trailing white space.\<close>

definition noSurroundingSpace :: "jsstring \<Rightarrow> bool" where
  "noSurroundingSpace s \<longleftrightarrow> s = [] \<or> (\<not> isSpace (hd s) \<and> \<not> isSpace (last s))"

text \<open>
  What the loop of \<open>getAttachItems\<close> keeps of one line, in the words of the
  specification: the record that the line parser returns, nothing for a line without
  match; and the records listed for a standard output: the first line dropped, the
  empty lines dropped, the other lines parsed with the widths 20 and 50.
\<close>

definition parsedItem :: "int \<Rightarrow> int \<Rightarrow> jsstring \<Rightarrow> ProcessItem option" where
  "parsedItem usernameWidth commandWidth line =
     (case parseLineFromPs line usernameWidth commandWidth of
        Inr (Some item) \<Rightarrow> Some item
      | _ \<Rightarrow> None)"

definition listedItems :: "jsstring \<Rightarrow> ProcessItem list" where
  "listedItems stdout =
     List.map_filter (parsedItem 20 50)
       (filter (\<lambda>line. line \<noteq> []) (drop 1 (split_str stdout 0xA)))"

text \<open>
  A standard output of three lines after the header: a process, a line that is no
  process line and the empty piece after the last line feed.
\<close>

definition out42 :: jsstring where
  "out42 = js ''    PID USER                 COMMAND                                            COMMAND''
     @ 0xA # js ''   42 root                 systemd                                            /sbin/init''
     @ 0xA # js ''bad line'' @ 0xA # js ''''"

text \<open>
  The line that \<open>ps\<close> prints for a process record, as in the sample output quoted in
  the source: the pid right-aligned in five columns, the user name and the executable
  name padded with spaces to their column widths, and the command line, with one
  space between the columns.
\<close>

definition padStart :: "jsstring \<Rightarrow> nat \<Rightarrow> jsstring" where
  "padStart s w = replicate (w - length s) 0x20 @ s"

definition padEnd :: "jsstring \<Rightarrow> nat \<Rightarrow> jsstring" where
  "padEnd s w = s @ replicate (w - length s) 0x20"

definition psLine :: "nat \<Rightarrow> jsstring \<Rightarrow> jsstring \<Rightarrow> jsstring \<Rightarrow> int \<Rightarrow> int \<Rightarrow> jsstring" where
  "psLine p username executable commandLine usernameWidth commandWidth =
     padStart (ToString (toNumber (int p))) 5 @ 0x20 #
     padEnd username (nat usernameWidth) @ 0x20 #
     padEnd executable (nat commandWidth) @ 0x20 #
     commandLine"

text \<open>
  The characters of a printed number: the digits and the characters of \<open>-\<close>, \<open>.\<close>,
  \<open>e+\<close> and \<open>Infinity\<close>; and the token that such a character is when it stands in
  a pattern.
\<close>

definition numChar :: "code_unit \<Rightarrow> bool" where
  "numChar c \<longleftrightarrow> isDecimalDigit c \<or>
     c = 0x2D \<or> c = 0x2E \<or> c = 0x65 \<or> c = 0x2B \<or>
     c = 0x49 \<or> c = 0x6E \<or> c = 0x66 \<or> c = 0x69 \<or> c = 0x74 \<or> c = 0x79"

definition tok :: "code_unit \<Rightarrow> token" where
  "tok c = (if c = 0x2E then TAtom AnyChar else if c = 0x2B then TQuant 1 None
            else TAtom (Literal c))"

text \<open>
  \<open>plusOK q N\<close>: the text \<open>N\<close> has no \<open>+\<close> at its start (unless \<open>q\<close>) and none right
  after another \<open>+\<close>. \<open>numText N\<close>: \<open>N\<close> can be the printed form of a number.
\<close>

fun plusOK :: "bool \<Rightarrow> jsstring \<Rightarrow> bool" where
  "plusOK q [] = True"
| "plusOK q (c # cs) = (if c = 0x2B then q \<and> plusOK False cs else plusOK True cs)"

definition numText :: "jsstring \<Rightarrow> bool" where
  "numText N \<longleftrightarrow> N \<noteq> [] \<and> list_all numChar N \<and> plusOK True N"

text \<open>
  The tokens that the braces with the printed number \<open>N\<close> between them make: a
  repetition count if \<open>N\<close> is a numeral, the characters one by one otherwise.
\<close>

definition braceToks :: "jsstring \<Rightarrow> token list" where
  "braceToks N =
     (if N \<noteq> [] \<and> list_all isDecimalDigit N
      then [TQuant (digitsValue N) (Some (digitsValue N))]
      else TAtom (Literal 0x7B) # map tok N @ [TAtom (Literal 0x7D)])"

text \<open>
  What \<open>parse\<close> does with a run of atoms and quantifiers inside a group: each atom
  becomes a term and each quantifier wraps the term before it. The run is well
  formed (\<open>absorbable\<close>) when every quantifier stands right after an atom.
\<close>

fun absorb :: "regex list \<Rightarrow> token list \<Rightarrow> regex list" where
  "absorb cur [] = cur"
| "absorb cur (TAtom cs # ts) = absorb (Chars cs # cur) ts"
| "absorb (a # cur) (TQuant mn mx # ts) = absorb (Repeat mn mx a # cur) ts"
| "absorb cur (t # ts) = absorb cur ts"

fun absorbable :: "bool \<Rightarrow> token list \<Rightarrow> bool" where
  "absorbable q [] = True"
| "absorbable q (TAtom cs # ts) = absorbable True ts"
| "absorbable q (TQuant mn mx # ts) = (q \<and> absorbable False ts)"
| "absorbable q (t # ts) = False"

text \<open>The body of the group \<open>(.{N})\<close>.\<close>

definition widthBody :: "jsstring \<Rightarrow> regex" where
  "widthBody N = seqs (rev (absorb [Chars AnyChar] (braceToks N)))"

text \<open>
  \<open>firstMatch r x y\<close>: the first way of matching \<open>r\<close> from state \<open>x\<close>, as ECMAScript
  specifies the matching, ends in state \<open>y\<close>.
\<close>

definition firstMatch :: "regex \<Rightarrow> mstate \<Rightarrow> mstate \<Rightarrow> bool" where
  "firstMatch r x y \<longleftrightarrow> (case ecma_matcher r x of [] \<Rightarrow> False | z # zs \<Rightarrow> z = y)"

text \<open>
  The notions that relate the matcher of the engine to the matcher of ECMAScript.
  \<open>forget\<close> drops the stack count of a state of the engine, \<open>used\<close> is that count
  and \<open>left\<close> the length of the input that remains. \<open>follows ws ys\<close>: up to its first
  exhaustion of the stack, the list \<open>ws\<close> of the engine is the list \<open>ys\<close> of
  ECMAScript.
\<close>

fun forget :: "estate \<Rightarrow> mstate" where
  "forget (e, inp, caps, n) = (e, inp, caps)"

fun used :: "estate \<Rightarrow> nat" where
  "used (e, inp, caps, n) = n"

fun left :: "estate \<Rightarrow> nat" where
  "left (e, inp, caps, n) = length inp"

fun follows :: "estate option list \<Rightarrow> mstate list \<Rightarrow> bool" where
  "follows [] ys = (ys = [])"
| "follows (None # ws) ys = True"
| "follows (Some x # ws) ys = (case ys of [] \<Rightarrow> False | y # ys' \<Rightarrow> forget x = y \<and> follows ws ys')"

text \<open>
  The patterns whose stack use is bounded below: \<open>tame r\<close> when every repetition in
  \<open>r\<close> repeats a character class and has an upper bound or a lower bound of at most
  three, as all the repetitions in the patterns of \<open>parseLineFromPs\<close>. \<open>loopBound r\<close>
  is the sum of the upper bounds in \<open>r\<close>, and \<open>capped r\<close> says that \<open>r\<close> is not a
  repetition without upper bound.
\<close>

fun tame :: "regex \<Rightarrow> bool" where
  "tame (Seq a b) = (tame a \<and> tame b)"
| "tame (Group g a) = tame a"
| "tame (Repeat mn mx a) = (case a of Chars cs \<Rightarrow> mn \<le> 3 \<or> mx \<noteq> None | _ \<Rightarrow> False)"
| "tame _ = True"

fun capped :: "regex \<Rightarrow> bool" where
  "capped (Repeat mn mx a) = (mx \<noteq> None)"
| "capped _ = True"

fun loopBound :: "regex \<Rightarrow> nat" where
  "loopBound (Seq a b) = loopBound a + loopBound b"
| "loopBound (Group g a) = loopBound a"
| "loopBound (Repeat mn mx a) = (case mx of None \<Rightarrow> 0 | Some m \<Rightarrow> m)"
| "loopBound _ = 0"

text \<open>
  \<open>firstWay r x w\<close>: the first thing that the engine reaches when it matches \<open>r\<close> from
  state \<open>x\<close> is \<open>w\<close>, a state or the exhaustion of the stack.
\<close>

definition firstWay :: "regex \<Rightarrow> estate \<Rightarrow> estate option \<Rightarrow> bool" where
  "firstWay r x w \<longleftrightarrow> (case matcher False r x of [] \<Rightarrow> False | z # zs \<Rightarrow> z = w)"

section \<open>Properties of the library functions\<close>

subsection \<open>Decimal numerals\<close>

lemma digitChar_digit: "d < 10 \<Longrightarrow> isDecimalDigit (digitChar d)"
proof -
  assume "d < 10"
  then have "d \<in> {0,1,2,3,4,5,6,7,8,9}" by auto
  then show ?thesis by (auto simp: isDecimalDigit_def digitChar_def)
qed

lemma digitChar_value: "d < 10 \<Longrightarrow> unat (digitChar d - 0x30) = d"
proof -
  assume "d < 10"
  then have "d \<in> {0,1,2,3,4,5,6,7,8,9}" by auto
  then show ?thesis by (auto simp: digitChar_def)
qed

lemma decimal_digits: "list_all isDecimalDigit (decimal n)"
proof (induction n rule: decimal.induct)
  case (1 n)
  show ?case
  proof (cases "n < 10")
    case True
    then show ?thesis by (simp add: decimal.simps [of n] digitChar_digit)
  next
    case False
    then show ?thesis using 1 by (simp add: decimal.simps [of n] digitChar_digit)
  qed
qed

lemma decimal_nonempty: "decimal n \<noteq> []"
  by (subst decimal.simps) simp

lemma digitsValue_snoc: "digitsValue (ds @ [c]) = 10 * digitsValue ds + unat (c - 0x30)"
  by (simp add: digitsValue_def)

lemma digitsValue_decimal: "digitsValue (decimal n) = n"
proof (induction n rule: decimal.induct)
  case (1 n)
  show ?case
  proof (cases "n < 10")
    case True
    then show ?thesis by (simp add: decimal.simps [of n] digitsValue_def digitChar_value)
  next
    case False
    then show ?thesis using 1
      by (simp add: decimal.simps [of n] digitsValue_snoc digitChar_value)
  qed
qed

lemma length_decimal_le: "n < 10 ^ k \<Longrightarrow> 0 < k \<Longrightarrow> length (decimal n) \<le> k"
proof (induction n arbitrary: k rule: decimal.induct)
  case (1 n)
  show ?case
  proof (cases "n < 10")
    case True
    then show ?thesis using 1(3) by (simp add: decimal.simps [of n])
  next
    case False
    then obtain j where k: "k = Suc j" using 1(3) by (cases k) auto
    have "j \<noteq> 0" using False 1(2) k by (cases j) auto
    moreover have "n div 10 < 10 ^ j" using 1(2) k by (simp add: less_mult_imp_div_less mult.commute)
    ultimately have "length (decimal (n div 10)) \<le> j" using 1(1) [OF False, of j] by simp
    then show ?thesis using False k by (simp add: decimal.simps [of n])
  qed
qed

lemma roundToDouble_small: "n \<le> 2 ^ 53 \<Longrightarrow> roundToDouble n = Some n"
proof (cases "n < 2 ^ 53")
  case True
  then show ?thesis by (simp add: roundToDouble_def)
next
  case False
  assume "n \<le> 2 ^ 53"
  with False have n: "n = 2 ^ 53" by simp
  have b: "bitLength 9007199254740992 = 54"
    by simp
  show ?thesis unfolding n
    by (simp add: roundToDouble_def b Let_def del: bitLength.simps)
qed

lemma natToString_small: "n \<le> 2 ^ 53 \<Longrightarrow> natToString n = decimal n"
proof -
  assume n: "n \<le> 2 ^ 53"
  have "(2::nat) ^ 53 < 10 ^ 21" by simp
  with n have "n < 10 ^ 21" by linarith
  then have "length (decimal n) \<le> 21" by (rule length_decimal_le) simp
  then show ?thesis using n by (simp add: natToString_def shortest_def)
qed

lemma ToString_toNumber_small:
  "0 \<le> i \<Longrightarrow> i \<le> 2 ^ 53 \<Longrightarrow> ToString (toNumber i) = decimal (nat i)"
proof -
  assume i: "0 \<le> i" "i \<le> 2 ^ 53"
  then have n: "nat i \<le> 2 ^ 53" by (simp add: nat_le_iff)
  have "nat \<bar>i\<bar> = nat i" using i by simp
  then show ?thesis using i n
    by (simp add: toNumber_def roundToDouble_small natToString_small)
qed

lemma ToString_toNumber_neg:
  "i < 0 \<Longrightarrow> - (2 ^ 53) \<le> i \<Longrightarrow> ToString (toNumber i) = 0x2D # decimal (nat (- i))"
proof -
  assume i: "i < 0" "- (2 ^ 53) \<le> i"
  then have n: "nat (- i) \<le> 2 ^ 53" by (simp add: nat_le_iff)
  have "nat \<bar>i\<bar> = nat (- i)" using i by simp
  moreover have "\<not> - int (nat (- i)) \<ge> 0" using i by simp
  ultimately show ?thesis using i n
    by (simp add: toNumber_def roundToDouble_small natToString_small)
qed

subsection \<open>The pattern of \<open>parseLineFromPs\<close>\<close>

lemma takeWhile_digits_append:
  "list_all isDecimalDigit N \<Longrightarrow> \<not> isDecimalDigit c \<Longrightarrow>
   takeWhile isDecimalDigit (N @ c # r) = N \<and> dropWhile isDecimalDigit (N @ c # r) = c # r"
  by (induction N) auto

lemma lex_brace_digits:
  assumes "N \<noteq> []" "list_all isDecimalDigit N"
  shows "lex_brace (N @ 0x7D # r) = Some (Inr (digitsValue N, Some (digitsValue N), r))"
proof -
  have "\<not> isDecimalDigit 0x7D" by (simp add: isDecimalDigit_def)
  from takeWhile_digits_append [OF assms(2) this, of r] assms(1)
  show ?thesis by (simp add: lex_brace_def)
qed

lemma lex_psEntry_digits:
  assumes "N1 \<noteq> []" "list_all isDecimalDigit N1" "N2 \<noteq> []" "list_all isDecimalDigit N2"
  shows "lex (js ''^'' @ 0x5C # js ''s*([0-9]+)'' @ 0x5C # js ''s+(.{'' @ N1 @ js ''})'' @ 0x5C # js ''s+(.{''
              @ N2 @ js ''})'' @ 0x5C # js ''s+(.*)$'') =
    Inr [TStart, TAtom WhiteSpaceClass, TQuant 0 None, TOpen, TAtom (ClassRanges [(0x30, 0x39)]), TQuant 1 None, TClose,
    TAtom WhiteSpaceClass, TQuant 1 None, TOpen, TAtom AnyChar, TQuant (digitsValue N1) (Some (digitsValue N1)), TClose,
    TAtom WhiteSpaceClass, TQuant 1 None, TOpen, TAtom AnyChar, TQuant (digitsValue N2) (Some (digitsValue N2)), TClose,
    TAtom WhiteSpaceClass, TQuant 1 None, TOpen, TAtom AnyChar, TQuant 0 None, TClose, TEnd]"
  by (simp add: js_def lex_brace_digits [OF assms(1,2)] lex_brace_digits [OF assms(3,4)] not_lazy_def cons_tok_def)

lemma RegExp_psEntry_digits:
  assumes "N1 \<noteq> []" "list_all isDecimalDigit N1" "N2 \<noteq> []" "list_all isDecimalDigit N2"
  shows "RegExp (js ''^'' @ 0x5C # js ''s*([0-9]+)'' @ 0x5C # js ''s+(.{'' @ N1 @ js ''})'' @ 0x5C # js ''s+(.{''
              @ N2 @ js ''})'' @ 0x5C # js ''s+(.*)$'') =
    Inr (psAst (Repeat (digitsValue N1) (Some (digitsValue N1)) (Chars AnyChar))
               (Repeat (digitsValue N2) (Some (digitsValue N2)) (Chars AnyChar)))"
  unfolding RegExp_def lex_psEntry_digits [OF assms]
  by (simp add: psAst_def)

lemma RegExp_psEntry_source:
  assumes "0 < u" "u \<le> 2 ^ 53" "0 < c" "c \<le> 2 ^ 53"
  shows "RegExp (psEntry_source u c) =
    Inr (psAst (Repeat (nat (u - 1)) (Some (nat (u - 1))) (Chars AnyChar))
               (Repeat (nat (c - 1)) (Some (nat (c - 1))) (Chars AnyChar)))"
proof -
  have u: "ToString (toNumber (u - 1)) = decimal (nat (u - 1))"
    using assms by (intro ToString_toNumber_small) auto
  have c: "ToString (toNumber (c - 1)) = decimal (nat (c - 1))"
    using assms by (intro ToString_toNumber_small) auto
  show ?thesis
    unfolding psEntry_source_def u c
    using RegExp_psEntry_digits [OF decimal_nonempty decimal_digits decimal_nonempty decimal_digits, of "nat (u - 1)" "nat (c - 1)"]
    by (simp add: digitsValue_decimal)
qed

subsection \<open>Quantified character classes\<close>

lemma clear_Nil [simp]: "clear [] caps = caps"
  by (simp add: clear_def)

lemma star_Nil:
  "ecma_matcher (Repeat 0 None (Chars cs)) (e, [], caps) = [(e, [], caps)]"
  by simp

lemma star_Cons:
  "ecma_matcher (Repeat 0 None (Chars cs)) (e, c # inp, caps) =
     (if charset_mem cs c then ecma_matcher (Repeat 0 None (Chars cs)) (Suc e, inp, caps) else [])
     @ [(e, c # inp, caps)]"
  by (subst ecma_matcher.simps) simp

lemma plus_Nil:
  "ecma_matcher (Repeat (Suc 0) None (Chars cs)) (e, [], caps) = []"
  by simp

lemma plus_Cons:
  "ecma_matcher (Repeat (Suc 0) None (Chars cs)) (e, c # inp, caps) =
     (if charset_mem cs c then ecma_matcher (Repeat 0 None (Chars cs)) (Suc e, inp, caps) else [])"
  by (subst ecma_matcher.simps) simp

lemma fixed_0:
  "ecma_matcher (Repeat 0 (Some 0) a) x = [x]"
  by (cases x) simp

lemma fixed_Suc_Nil:
  "ecma_matcher (Repeat (Suc n) (Some (Suc n)) (Chars cs)) (e, [], caps) = []"
  by simp

lemma fixed_Suc_Cons:
  "ecma_matcher (Repeat (Suc n) (Some (Suc n)) (Chars cs)) (e, c # inp, caps) =
     (if charset_mem cs c then ecma_matcher (Repeat n (Some n) (Chars cs)) (Suc e, inp, caps) else [])"
  by (subst ecma_matcher.simps) simp

lemma run_Nil [simp]: "run cs [] = 0"
  by (simp add: run_def)

lemma run_Cons [simp]: "run cs (c # inp) = (if charset_mem cs c then Suc (run cs inp) else 0)"
  by (simp add: run_def)

lemma run_le: "run cs inp \<le> length inp"
  by (simp add: run_def length_takeWhile_le)

lemma upt_0_Suc: "[0..<Suc k] = 0 # map Suc [0..<k]"
  by (simp add: upt_conv_Cons map_Suc_upt del: upt_Suc)

lemma upt_1_Suc: "[Suc 0..<Suc k] = map Suc [0..<k]"
  by (simp add: map_Suc_upt del: upt_Suc)

lemma star_eq:
  "ecma_matcher (Repeat 0 None (Chars cs)) (e, inp, caps) =
     map (\<lambda>n. (e + n, drop n inp, caps)) (rev [0..<Suc (run cs inp)])"
proof (induction inp arbitrary: e)
  case Nil
  show ?case by simp
next
  case (Cons c inp)
  show ?case
  proof (cases "charset_mem cs c")
    case True
    have "map (\<lambda>n. (e + n, drop n (c # inp), caps)) (rev [0..<Suc (Suc (run cs inp))])
        = map (\<lambda>n. (Suc e + n, drop n inp, caps)) (rev [0..<Suc (run cs inp)]) @ [(e, c # inp, caps)]"
      unfolding upt_0_Suc [of "Suc (run cs inp)"]
      by (simp add: rev_map del: upt_Suc)
    then show ?thesis
      unfolding star_Cons Cons.IH using True by (simp del: upt_Suc ecma_matcher.simps)
  next
    case False
    then show ?thesis unfolding star_Cons by simp
  qed
qed

lemma plus_eq:
  "ecma_matcher (Repeat (Suc 0) None (Chars cs)) (e, inp, caps) =
     map (\<lambda>n. (e + n, drop n inp, caps)) (rev [Suc 0..<Suc (run cs inp)])"
proof (cases inp)
  case Nil
  then show ?thesis by simp
next
  case (Cons c inp')
  show ?thesis
  proof (cases "charset_mem cs c")
    case True
    have "map (\<lambda>n. (e + n, drop n (c # inp'), caps)) (rev [Suc 0..<Suc (Suc (run cs inp'))])
        = map (\<lambda>n. (Suc e + n, drop n inp', caps)) (rev [0..<Suc (run cs inp')])"
      unfolding upt_1_Suc [of "Suc (run cs inp')"]
      by (simp add: rev_map del: upt_Suc)
    then show ?thesis
      unfolding Cons plus_Cons star_eq using True by (simp del: upt_Suc ecma_matcher.simps)
  next
    case False
    then show ?thesis unfolding Cons plus_Cons by simp
  qed
qed

lemma fixed_eq:
  "ecma_matcher (Repeat n (Some n) (Chars cs)) (e, inp, caps) =
     (if n \<le> run cs inp then [(e + n, drop n inp, caps)] else [])"
proof (induction n arbitrary: e inp)
  case 0
  show ?case by (simp add: fixed_0)
next
  case (Suc n)
  show ?case
  proof (cases inp)
    case Nil
    then show ?thesis by simp
  next
    case (Cons c inp')
    show ?thesis unfolding Cons fixed_Suc_Cons Suc.IH by simp
  qed
qed

subsection \<open>Matches of the pattern\<close>

lemma consumesD:
  "consumes r P \<Longrightarrow> st \<in> set (ecma_matcher r (e, inp, caps)) \<Longrightarrow>
   \<exists>x rest. inp = x @ rest \<and> P x \<and> st = (e + length x, rest, caps)"
  unfolding consumes_def by blast

lemma take_run: "n \<le> run cs inp \<Longrightarrow> list_all (charset_mem cs) (take n inp)"
proof (induction inp arbitrary: n)
  case Nil
  then show ?case by simp
next
  case (Cons c inp)
  then show ?case by (cases n) (auto split: if_splits)
qed

lemma consumes_star: "consumes (Repeat 0 None (Chars cs)) (list_all (charset_mem cs))"
  unfolding consumes_def
proof (intro allI impI)
  fix e inp caps st
  assume "st \<in> set (ecma_matcher (Repeat 0 None (Chars cs)) (e, inp, caps))"
  then obtain n where n: "n \<le> run cs inp" "st = (e + n, drop n inp, caps)"
    unfolding star_eq by auto
  have "n \<le> length inp" using n(1) run_le [of cs inp] by simp
  then have "inp = take n inp @ drop n inp \<and> list_all (charset_mem cs) (take n inp)
     \<and> st = (e + length (take n inp), drop n inp, caps)"
    using n take_run [OF n(1)] by simp
  then show "\<exists>x rest. inp = x @ rest \<and> list_all (charset_mem cs) x \<and> st = (e + length x, rest, caps)"
    by blast
qed

lemma consumes_plus:
  "consumes (Repeat (Suc 0) None (Chars cs)) (\<lambda>x. x \<noteq> [] \<and> list_all (charset_mem cs) x)"
  unfolding consumes_def
proof (intro allI impI)
  fix e inp caps st
  assume "st \<in> set (ecma_matcher (Repeat (Suc 0) None (Chars cs)) (e, inp, caps))"
  then obtain n where n: "0 < n" "n \<le> run cs inp" "st = (e + n, drop n inp, caps)"
    unfolding plus_eq by auto
  have l: "n \<le> length inp" using n(2) run_le [of cs inp] by simp
  then have "take n inp \<noteq> []" using n(1) by auto
  then have "inp = take n inp @ drop n inp \<and> (take n inp \<noteq> [] \<and> list_all (charset_mem cs) (take n inp))
     \<and> st = (e + length (take n inp), drop n inp, caps)"
    using n l take_run [OF n(2)] by simp
  then show "\<exists>x rest. inp = x @ rest \<and> (x \<noteq> [] \<and> list_all (charset_mem cs) x) \<and> st = (e + length x, rest, caps)"
    by blast
qed

lemma consumes_fixed:
  "consumes (Repeat n (Some n) (Chars cs)) (\<lambda>x. length x = n \<and> list_all (charset_mem cs) x)"
  unfolding consumes_def
proof (intro allI impI)
  fix e inp caps st
  assume "st \<in> set (ecma_matcher (Repeat n (Some n) (Chars cs)) (e, inp, caps))"
  then have n: "n \<le> run cs inp" "st = (e + n, drop n inp, caps)"
    unfolding fixed_eq by (auto split: if_splits)
  have l: "n \<le> length inp" using n(1) run_le [of cs inp] by simp
  then have "inp = take n inp @ drop n inp \<and> (length (take n inp) = n \<and> list_all (charset_mem cs) (take n inp))
     \<and> st = (e + length (take n inp), drop n inp, caps)"
    using n l take_run [OF n(1)] by simp
  then show "\<exists>x rest. inp = x @ rest \<and> (length x = n \<and> list_all (charset_mem cs) x) \<and> st = (e + length x, rest, caps)"
    by blast
qed

lemma consumes_plus1:
  "consumes (Repeat 1 None (Chars cs)) (\<lambda>x. x \<noteq> [] \<and> list_all (charset_mem cs) x)"
  using consumes_plus by simp

lemma group_consumes:
  assumes "consumes b P" "st \<in> set (ecma_matcher (Group k b) (e, inp, caps))"
  shows "\<exists>x rest. inp = x @ rest \<and> P x \<and> st = (e + length x, rest, caps[k := Some x])"
proof -
  from assms(2) obtain st' where st': "st' \<in> set (ecma_matcher b (e, inp, caps))"
    and st: "st = (case st' of (e', inp', caps') \<Rightarrow> (e', inp', caps'[k := Some (take (e' - e) inp)]))"
    by auto
  from consumesD [OF assms(1) st'] obtain x rest where
    x: "inp = x @ rest" "P x" "st' = (e + length x, rest, caps)" by blast
  then have "st = (e + length x, rest, caps[k := Some x])" using st by simp
  with x show ?thesis by blast
qed

lemma seq_mem:
  "st \<in> set (ecma_matcher (Seq a b) x) \<longleftrightarrow> (\<exists>y \<in> set (ecma_matcher a x). st \<in> set (ecma_matcher b y))"
  by simp

lemma match_psAst:
  assumes b2: "consumes b2 P2" and b3: "consumes b3 P3"
    and m: "st \<in> set (ecma_matcher (psAst b2 b3) (0, line, [None, None, None, None, None]))"
  shows "\<exists>w0 ds w1 f1 w2 f2 w3 f3.
           line = w0 @ ds @ w1 @ f1 @ w2 @ f2 @ w3 @ f3 \<and>
           st = (length line, [], [None, Some ds, Some f1, Some f2, Some f3]) \<and>
           list_all isSpace w0 \<and>
           ds \<noteq> [] \<and> list_all isDecimalDigit ds \<and>
           w1 \<noteq> [] \<and> list_all isSpace w1 \<and> P2 f1 \<and>
           w2 \<noteq> [] \<and> list_all isSpace w2 \<and> P3 f2 \<and>
           w3 \<noteq> [] \<and> list_all isSpace w3 \<and>
           list_all (\<lambda>c. \<not> isLineTerminator c) f3"
proof -
  let ?ws = "Chars WhiteSpaceClass"
  from m obtain s0 s1 s2 s3 s4 s5 s6 s7 s8 where
    s0: "s0 \<in> set (ecma_matcher AssertStart (0, line, [None, None, None, None, None]))" and
    s1: "s1 \<in> set (ecma_matcher (Repeat 0 None ?ws) s0)" and
    s2: "s2 \<in> set (ecma_matcher (Group 1 (Repeat 1 None (Chars (ClassRanges [(0x30, 0x39)])))) s1)" and
    s3: "s3 \<in> set (ecma_matcher (Repeat 1 None ?ws) s2)" and
    s4: "s4 \<in> set (ecma_matcher (Group 2 b2) s3)" and
    s5: "s5 \<in> set (ecma_matcher (Repeat 1 None ?ws) s4)" and
    s6: "s6 \<in> set (ecma_matcher (Group 3 b3) s5)" and
    s7: "s7 \<in> set (ecma_matcher (Repeat 1 None ?ws) s6)" and
    s8: "s8 \<in> set (ecma_matcher (Group 4 (Repeat 0 None (Chars AnyChar))) s7)" and
    s9: "st \<in> set (ecma_matcher AssertEnd s8)"
    unfolding psAst_def seq_mem by blast
  have e0: "s0 = (0, line, [None, None, None, None, None])" using s0 by simp
  from consumesD [OF consumes_star s1 [unfolded e0] ] obtain w0 r0 where
    w0: "line = w0 @ r0" "list_all (charset_mem WhiteSpaceClass) w0"
        "s1 = (0 + length w0, r0, [None, None, None, None, None])" by blast
  from group_consumes [OF consumes_plus1 s2 [unfolded w0(3)] ] obtain ds r1 where
    ds: "r0 = ds @ r1" "ds \<noteq> []" "list_all (charset_mem (ClassRanges [(0x30, 0x39)])) ds"
        "s2 = (0 + length w0 + length ds, r1, [None, None, None, None, None][1 := Some ds])" by blast
  from consumesD [OF consumes_plus1 s3 [unfolded ds(4)] ] obtain w1 r2 where
    w1: "r1 = w1 @ r2" "w1 \<noteq> []" "list_all (charset_mem WhiteSpaceClass) w1"
        "s3 = (0 + length w0 + length ds + length w1, r2, [None, None, None, None, None][1 := Some ds])" by blast
  from group_consumes [OF b2 s4 [unfolded w1(4)] ] obtain f1 r3 where
    f1: "r2 = f1 @ r3" "P2 f1"
        "s4 = (0 + length w0 + length ds + length w1 + length f1, r3,
               [None, None, None, None, None][1 := Some ds, 2 := Some f1])" by blast
  from consumesD [OF consumes_plus1 s5 [unfolded f1(3)] ] obtain w2 r4 where
    w2: "r3 = w2 @ r4" "w2 \<noteq> []" "list_all (charset_mem WhiteSpaceClass) w2"
        "s5 = (0 + length w0 + length ds + length w1 + length f1 + length w2, r4,
               [None, None, None, None, None][1 := Some ds, 2 := Some f1])" by blast
  from group_consumes [OF b3 s6 [unfolded w2(4)] ] obtain f2 r5 where
    f2: "r4 = f2 @ r5" "P3 f2"
        "s6 = (0 + length w0 + length ds + length w1 + length f1 + length w2 + length f2, r5,
               [None, None, None, None, None][1 := Some ds, 2 := Some f1, 3 := Some f2])" by blast
  from consumesD [OF consumes_plus1 s7 [unfolded f2(3)] ] obtain w3 r6 where
    w3: "r5 = w3 @ r6" "w3 \<noteq> []" "list_all (charset_mem WhiteSpaceClass) w3"
        "s7 = (0 + length w0 + length ds + length w1 + length f1 + length w2 + length f2 + length w3, r6,
               [None, None, None, None, None][1 := Some ds, 2 := Some f1, 3 := Some f2])" by blast
  from group_consumes [OF consumes_star s8 [unfolded w3(4)] ] obtain f3 r7 where
    f3: "r6 = f3 @ r7" "list_all (charset_mem AnyChar) f3"
        "s8 = (0 + length w0 + length ds + length w1 + length f1 + length w2 + length f2 + length w3 + length f3, r7,
               [None, None, None, None, None][1 := Some ds, 2 := Some f1, 3 := Some f2, 4 := Some f3])" by blast
  from s9 [unfolded f3(3)] have r7: "r7 = []" and
    st: "st = (0 + length w0 + length ds + length w1 + length f1 + length w2 + length f2 + length w3 + length f3, [],
               [None, None, None, None, None][1 := Some ds, 2 := Some f1, 3 := Some f2, 4 := Some f3])"
    by (auto split: if_splits)
  have line: "line = w0 @ ds @ w1 @ f1 @ w2 @ f2 @ w3 @ f3"
    using w0(1) ds(1) w1(1) f1(1) w2(1) f2(1) w3(1) f3(1) r7 by simp
  have st': "st = (length line, [], [None, Some ds, Some f1, Some f2, Some f3])"
    unfolding st line by simp
  have dig: "list_all isDecimalDigit ds"
    using ds(3) by (simp add: list_all_iff isDecimalDigit_def)
  have sp: "list_all isSpace w0" "list_all isSpace w1" "list_all isSpace w2" "list_all isSpace w3"
    using w0(2) w1(3) w2(3) w3(3) by (simp_all add: list_all_iff)
  have lt: "list_all (\<lambda>c. \<not> isLineTerminator c) f3"
    using f3(2) by (simp add: list_all_iff)
  show ?thesis
    using line st' sp dig ds(2) w1(2) w2(2) w3(2) f1(2) f2(2) lt by blast
qed

lemma ecma_exec_from_anchored: "ecma_exec_from (Seq AssertStart r) (Suc i) inp = None"
  by (induction inp arbitrary: i) (simp_all add: ecma_exec_from.simps [of _ _ "[]"] ecma_exec_from.simps [of _ _ "_ # _"])

lemma groups_psAst: "groups b2 = [] \<Longrightarrow> groups b3 = [] \<Longrightarrow> groups (psAst b2 b3) = [1, 2, 3, 4]"
  by (simp add: psAst_def)

lemma exec_psAst:
  assumes "groups b2 = []" "groups b3 = []"
  shows "ecma_exec (psAst b2 b3) line =
     (case ecma_matcher (psAst b2 b3) (0, line, [None, None, None, None, None]) of
        [] \<Rightarrow> None
      | (e, inp', caps) # _ \<Rightarrow> Some (caps[0 := Some (take e line)]))"
proof -
  have r: "replicate (length (groups (psAst b2 b3))) None = [None, None, None, None]"
    by (simp add: groups_psAst [OF assms] numeral_eq_Suc)
  have a: "\<And>inp. ecma_exec_from (psAst b2 b3) (Suc 0) inp = None"
    unfolding psAst_def by (rule ecma_exec_from_anchored)
  show ?thesis
    unfolding ecma_exec_def
    by (subst ecma_exec_from.simps) (simp add: r a split: list.splits)
qed

lemma trim_id:
  assumes "s \<noteq> []" "\<not> isSpace (hd s)" "\<not> isSpace (last s)"
  shows "trim s = s"
proof -
  have a: "dropWhile isSpace s = s"
    using assms by (simp add: dropWhile_eq_self_iff)
  have b: "dropWhile isSpace (rev s) = rev s"
    using assms by (simp add: dropWhile_eq_self_iff hd_rev)
  show ?thesis by (simp add: trim_def a b)
qed

lemma digit_not_space: "isDecimalDigit c \<Longrightarrow> \<not> isSpace c"
  by (auto simp: isDecimalDigit_def isSpace_def isWhiteSpace_def isLineTerminator_def word_le_nat_alt)

lemma trim_digits: "ds \<noteq> [] \<Longrightarrow> list_all isDecimalDigit ds \<Longrightarrow> trim ds = ds"
  by (rule trim_id) (auto simp: list_all_iff intro!: digit_not_space)

subsection \<open>The pattern at any widths\<close>

lemma digit_cases:
  "isDecimalDigit c \<Longrightarrow>
   c = 0x30 \<or> c = 0x31 \<or> c = 0x32 \<or> c = 0x33 \<or> c = 0x34 \<or> c = 0x35 \<or> c = 0x36 \<or>
   c = 0x37 \<or> c = 0x38 \<or> c = 0x39"
proof -
  assume "isDecimalDigit c"
  then have "48 \<le> unat c" "unat c \<le> 57"
    by (simp_all add: isDecimalDigit_def word_le_nat_alt)
  then have "unat c = 48 \<or> unat c = 49 \<or> unat c = 50 \<or> unat c = 51 \<or> unat c = 52 \<or>
      unat c = 53 \<or> unat c = 54 \<or> unat c = 55 \<or> unat c = 56 \<or> unat c = 57"
    by arith
  then have "unat c \<in> {48, 49, 50, 51, 52, 53, 54, 55, 56, 57}" by blast
  then have "of_nat (unat c) \<in> ((of_nat ` {48, 49, 50, 51, 52, 53, 54, 55, 56, 57}) :: 16 word set)"
    by (rule imageI)
  then show ?thesis by simp
qed

lemma lex_numChar:
  assumes "numChar c" "not_lazy cs"
  shows "lex (c # cs) = cons_tok (tok c) (lex cs)"
proof -
  from assms(1) consider "isDecimalDigit c" | "c = 0x2D" | "c = 0x2E" | "c = 0x65" | "c = 0x2B"
    | "c = 0x49" | "c = 0x6E" | "c = 0x66" | "c = 0x69" | "c = 0x74" | "c = 0x79"
    unfolding numChar_def by blast
  then show ?thesis
  proof cases
    case 1
    from digit_cases [OF this] show ?thesis by (auto simp: tok_def)
  qed (simp_all add: tok_def assms(2))
qed

lemma numChar_not_question: "numChar c \<Longrightarrow> c \<noteq> 0x3F"
  using digit_cases [of c] by (auto simp: numChar_def)

lemma lex_text:
  assumes "list_all numChar N"
  shows "lex (N @ 0x7D # rest) =
     (case lex (0x7D # rest) of Inl e \<Rightarrow> Inl e | Inr ts \<Rightarrow> Inr (map tok N @ ts))"
  using assms
proof (induction N)
  case Nil
  show ?case by (simp split: sum.splits)
next
  case (Cons c N)
  then have c: "numChar c" and N: "list_all numChar N" by simp_all
  have "not_lazy (N @ 0x7D # rest)"
  proof (cases N)
    case Nil
    then show ?thesis by (simp add: not_lazy_def)
  next
    case (Cons d N')
    then have "numChar d" using N by simp
    then show ?thesis using Cons by (simp add: not_lazy_def numChar_not_question)
  qed
  from lex_numChar [OF c this] Cons.IH [OF N] show ?case
    by (simp add: cons_tok_def split: sum.splits)
qed

lemma lex_brace_text:
  assumes "list_all numChar N" "\<not> list_all isDecimalDigit N"
  shows "lex_brace (N @ 0x7D # rest) = None"
proof -
  from assms(2) obtain x where x: "x \<in> set N" "\<not> isDecimalDigit x"
    by (auto simp: list_all_iff)
  then have t: "takeWhile isDecimalDigit (N @ 0x7D # rest) = takeWhile isDecimalDigit N"
    and d: "dropWhile isDecimalDigit (N @ 0x7D # rest) = dropWhile isDecimalDigit N @ 0x7D # rest"
    by simp_all
  have ne: "dropWhile isDecimalDigit N \<noteq> []"
    using x by auto
  then obtain c r where cr: "dropWhile isDecimalDigit N = c # r"
    by (cases "dropWhile isDecimalDigit N") auto
  have "c = hd (dropWhile isDecimalDigit N)" using cr by simp
  then have nd: "\<not> isDecimalDigit c" using hd_dropWhile [OF ne] by simp
  have "c \<in> set N" using cr set_dropWhileD [of c isDecimalDigit N] by simp
  then have "numChar c" using assms(1) by (simp add: list_all_iff)
  with nd have "c \<noteq> 0x7D" "c \<noteq> 0x2C" by (auto simp: numChar_def)
  then show ?thesis
    by (simp add: lex_brace_def t d cr Let_def)
qed

lemma lex_braces:
  assumes "numText N" "lex rest = Inr ts" "not_lazy rest"
  shows "lex (0x7B # N @ 0x7D # rest) = Inr (braceToks N @ ts)"
proof (cases "list_all isDecimalDigit N")
  case True
  moreover have "N \<noteq> []" using assms(1) by (simp add: numText_def)
  ultimately show ?thesis
    using lex_brace_digits [of N rest] assms(2,3)
    by (simp add: braceToks_def cons_tok_def)
next
  case False
  have n: "list_all numChar N" using assms(1) by (simp add: numText_def)
  have "lex (0x7D # rest) = Inr (TAtom (Literal 0x7D) # ts)"
    using assms(2) by (simp add: lex_brace_def cons_tok_def)
  then have "lex (N @ 0x7D # rest) = Inr (map tok N @ TAtom (Literal 0x7D) # ts)"
    using lex_text [OF n, of rest] by simp
  then show ?thesis
    using False lex_brace_text [OF n False, of rest]
    by (simp add: braceToks_def cons_tok_def)
qed

lemma lex_psEntry:
  assumes "numText N1" "numText N2"
  shows "lex (js ''^'' @ 0x5C # js ''s*([0-9]+)'' @ 0x5C # js ''s+(.{'' @ N1 @ js ''})'' @ 0x5C # js ''s+(.{''
              @ N2 @ js ''})'' @ 0x5C # js ''s+(.*)$'') =
    Inr ([TStart, TAtom WhiteSpaceClass, TQuant 0 None, TOpen,
          TAtom (ClassRanges [(0x30, 0x39)]), TQuant 1 None, TClose,
          TAtom WhiteSpaceClass, TQuant 1 None, TOpen, TAtom AnyChar] @ braceToks N1 @
         [TClose, TAtom WhiteSpaceClass, TQuant 1 None, TOpen, TAtom AnyChar] @ braceToks N2 @
         [TClose, TAtom WhiteSpaceClass, TQuant 1 None, TOpen, TAtom AnyChar, TQuant 0 None,
          TClose, TEnd])"
proof -
  have a: "lex (js '')'' @ 0x5C # js ''s+(.*)$'') =
      Inr [TClose, TAtom WhiteSpaceClass, TQuant 1 None, TOpen, TAtom AnyChar, TQuant 0 None,
          TClose, TEnd]"
    by (simp add: js_def not_lazy_def cons_tok_def)
  have b: "lex (0x7B # N2 @ 0x7D # js '')'' @ 0x5C # js ''s+(.*)$'') =
      Inr (braceToks N2 @ [TClose, TAtom WhiteSpaceClass, TQuant 1 None, TOpen, TAtom AnyChar,
          TQuant 0 None, TClose, TEnd])"
    by (rule lex_braces [OF assms(2) a]) (simp add: js_def not_lazy_def)
  then have c: "lex (js '')'' @ 0x5C # js ''s+(.'' @ 0x7B # N2 @ 0x7D # js '')'' @ 0x5C # js ''s+(.*)$'') =
      Inr ([TClose, TAtom WhiteSpaceClass, TQuant 1 None, TOpen, TAtom AnyChar] @ braceToks N2 @
          [TClose, TAtom WhiteSpaceClass, TQuant 1 None, TOpen, TAtom AnyChar,
          TQuant 0 None, TClose, TEnd])"
    by (simp add: js_def not_lazy_def cons_tok_def del: lex.simps(2))
       (simp add: not_lazy_def cons_tok_def)
  have d: "lex (0x7B # N1 @ 0x7D # js '')'' @ 0x5C # js ''s+(.'' @ 0x7B # N2 @ 0x7D # js '')'' @ 0x5C # js ''s+(.*)$'') =
      Inr (braceToks N1 @ [TClose, TAtom WhiteSpaceClass, TQuant 1 None, TOpen, TAtom AnyChar] @ braceToks N2 @
          [TClose, TAtom WhiteSpaceClass, TQuant 1 None, TOpen, TAtom AnyChar,
          TQuant 0 None, TClose, TEnd])"
    by (rule lex_braces [OF assms(1) c]) (simp add: js_def not_lazy_def)
  have e: "js ''^'' @ 0x5C # js ''s*([0-9]+)'' @ 0x5C # js ''s+(.{'' @ N1 @ js ''})'' @ 0x5C # js ''s+(.{''
              @ N2 @ js ''})'' @ 0x5C # js ''s+(.*)$''
       = js ''^'' @ 0x5C # js ''s*([0-9]+)'' @ 0x5C # js ''s+(.'' @
         (0x7B # N1 @ 0x7D # js '')'' @ 0x5C # js ''s+(.'' @ 0x7B # N2 @ 0x7D # js '')'' @ 0x5C # js ''s+(.*)$'')"
    by (simp add: js_def)
  show ?thesis
    unfolding e
    by (simp add: js_def not_lazy_def cons_tok_def d [unfolded js_def, simplified])
qed

lemma parse_absorb:
  assumes "absorbable (cur \<noteq> [] \<and> quantifiable (hd cur)) ts"
  shows "parse stk cur k (ts @ rest) = parse stk (absorb cur ts) k rest"
  using assms
proof (induction cur ts rule: absorb.induct)
  case (3 a cur mn mx ts)
  then show ?case by simp
qed simp_all

lemma absorbable_text:
  "absorbable q (map tok N @ [TAtom c]) = plusOK q N"
  by (induction N arbitrary: q) (simp_all add: tok_def)

lemma absorbable_braceToks:
  assumes "numText N"
  shows "absorbable True (braceToks N)"
  using assms by (simp add: braceToks_def numText_def absorbable_text)

lemma parse_psEntry:
  assumes "numText N1" "numText N2"
  shows "parse [] [] 0
        ([TStart, TAtom WhiteSpaceClass, TQuant 0 None, TOpen,
          TAtom (ClassRanges [(0x30, 0x39)]), TQuant 1 None, TClose,
          TAtom WhiteSpaceClass, TQuant 1 None, TOpen, TAtom AnyChar] @ braceToks N1 @
         [TClose, TAtom WhiteSpaceClass, TQuant 1 None, TOpen, TAtom AnyChar] @ braceToks N2 @
         [TClose, TAtom WhiteSpaceClass, TQuant 1 None, TOpen, TAtom AnyChar, TQuant 0 None,
          TClose, TEnd])
     = Inr (psAst (widthBody N1) (widthBody N2))"
proof -
  have a1: "absorbable ([Chars AnyChar] \<noteq> [] \<and> quantifiable (hd [Chars AnyChar])) (braceToks N1)"
    using absorbable_braceToks [OF assms(1)] by simp
  have a2: "absorbable ([Chars AnyChar] \<noteq> [] \<and> quantifiable (hd [Chars AnyChar])) (braceToks N2)"
    using absorbable_braceToks [OF assms(2)] by simp
  show ?thesis
    by (simp add: parse_absorb [OF a1] parse_absorb [OF a2] psAst_def widthBody_def)
qed

lemma RegExp_psEntry:
  assumes "numText (ToString (toNumber (u - 1)))" "numText (ToString (toNumber (c - 1)))"
  shows "RegExp (psEntry_source u c) =
     Inr (psAst (widthBody (ToString (toNumber (u - 1)))) (widthBody (ToString (toNumber (c - 1)))))"
  unfolding RegExp_def psEntry_source_def lex_psEntry [OF assms]
  using parse_psEntry [OF assms] by simp

lemma plusOK_free: "0x2B \<notin> set xs \<Longrightarrow> plusOK q xs"
  by (induction xs arbitrary: q) auto

lemma plusOK_append_free: "0x2B \<notin> set xs \<Longrightarrow> xs \<noteq> [] \<Longrightarrow> plusOK q (xs @ ys) = plusOK True ys"
proof (induction xs arbitrary: q)
  case Nil
  then show ?case by simp
next
  case (Cons x xs)
  then show ?case by (cases xs) auto
qed

lemma digit_numChar: "isDecimalDigit c \<Longrightarrow> numChar c"
  by (simp add: numChar_def)

lemma digit_not_plus: "isDecimalDigit c \<Longrightarrow> c \<noteq> 0x2B"
  using digit_cases [of c] by auto

lemma digits_numText:
  assumes "ds \<noteq> []" "list_all isDecimalDigit ds"
  shows "numText ds"
proof -
  have "0x2B \<notin> set ds" using assms(2) digit_not_plus by (auto simp: list_all_iff)
  then have "plusOK True ds" by (rule plusOK_free)
  moreover have "list_all numChar ds" using assms(2) by (auto simp: list_all_iff digit_numChar)
  ultimately show ?thesis using assms(1) by (simp add: numText_def)
qed

lemma stripZeros_subset: "set (stripZeros ds) \<subseteq> set ds"
  using set_dropWhileD [of _ "\<lambda>c. c = 0x30" "rev ds"] by (auto simp: stripZeros_def)

lemma natToString_numText: "numText (natToString x)"
proof -
  let ?ds = "decimal (shortest x)"
  have ds: "?ds \<noteq> []" "list_all isDecimalDigit ?ds"
    by (simp_all add: decimal_nonempty decimal_digits)
  show ?thesis
  proof (cases "length ?ds \<le> 21")
    case True
    then show ?thesis using digits_numText [OF ds] by (simp add: natToString_def)
  next
    case False
    show ?thesis
    proof (cases "stripZeros ?ds")
      case Nil
      then show ?thesis using False digits_numText [OF ds] by (simp add: natToString_def)
    next
      case (Cons d fs)
      let ?pre = "d # (if fs = [] then [] else 0x2E # fs)"
      let ?post = "decimal (length ?ds - 1)"
      have r: "natToString x = ?pre @ js ''e+'' @ ?post"
        using False Cons by (simp add: natToString_def)
      have sub: "set (d # fs) \<subseteq> set ?ds" using stripZeros_subset [of ?ds] Cons by simp
      then have dg: "list_all isDecimalDigit (d # fs)"
        using ds(2) by (auto simp: list_all_iff)
      then have pre_nc: "list_all numChar ?pre"
        by (auto simp: list_all_iff digit_numChar numChar_def)
      have pre_np: "0x2B \<notin> set ?pre"
        using dg digit_not_plus by (auto simp: list_all_iff)
      have post: "numText ?post"
        by (rule digits_numText) (simp_all add: decimal_nonempty decimal_digits)
      have e: "js ''e+'' = [0x65, 0x2B]" by (simp add: js_def)
      have "0x2B \<notin> set ?post"
        using decimal_digits [of "length ?ds - 1"] digit_not_plus by (auto simp: list_all_iff)
      then have "plusOK False ?post" by (rule plusOK_free)
      then have "plusOK True (?pre @ js ''e+'' @ ?post)"
        unfolding plusOK_append_free [OF pre_np list.distinct(2)] e by simp
      moreover have "list_all numChar (?pre @ js ''e+'' @ ?post)"
        using pre_nc post by (simp add: e numText_def numChar_def)
      ultimately show ?thesis unfolding r by (simp add: numText_def)
    qed
  qed
qed

lemma ToString_numText: "numText (ToString n)"
proof (cases n)
  case (Finite i)
  have "numText (0x2D # natToString (nat (- i)))"
    using natToString_numText [of "nat (- i)"] by (simp add: numText_def numChar_def)
  then show ?thesis using Finite natToString_numText [of "nat i"] by simp
next
  case PosInfinity
  then show ?thesis by (simp add: numText_def numChar_def js_def)
next
  case NegInfinity
  then show ?thesis by (simp add: numText_def numChar_def js_def)
qed

lemma RegExp_psEntry_any:
  "RegExp (psEntry_source u c) =
     Inr (psAst (widthBody (ToString (toNumber (u - 1)))) (widthBody (ToString (toNumber (c - 1)))))"
  by (rule RegExp_psEntry) (rule ToString_numText)+

subsection \<open>Patterns without groups\<close>

lemma groupfree_steps:
  "groups r = [] \<Longrightarrow> st \<in> set (ecma_matcher r x) \<Longrightarrow>
   \<exists>pre rest. fst (snd x) = pre @ rest \<and> st = (fst x + length pre, rest, snd (snd x))"
proof (induction r x arbitrary: st rule: ecma_matcher.induct)
  case (1 x)
  then show ?case by (cases x) auto
next
  case (2 cs e inp caps)
  then show ?case
  proof (cases inp)
    case Nil
    with 2 show ?thesis by simp
  next
    case (Cons c inp')
    with 2 have "st = (Suc e, inp', caps)" by (auto split: if_splits)
    then have "inp = [c] @ inp' \<and> st = (e + length [c], inp', caps)" using Cons by simp
    then show ?thesis by (metis fst_conv snd_conv)
  qed
next
  case (3 e inp caps)
  then show ?case by (auto split: if_splits)
next
  case (4 e inp caps)
  then show ?case by (auto split: if_splits)
next
  case (5 a b x)
  from 5(3) have ga: "groups a = []" and gb: "groups b = []" by simp_all
  from 5(4) obtain y where y: "y \<in> set (ecma_matcher a x)" "st \<in> set (ecma_matcher b y)" by auto
  from 5(1) [OF ga y(1)] obtain p1 r1 where
    1: "fst (snd x) = p1 @ r1" "y = (fst x + length p1, r1, snd (snd x))" by blast
  from 5(2) [OF y(1) gb y(2)] obtain p2 r2 where
    2: "fst (snd y) = p2 @ r2" "st = (fst y + length p2, r2, snd (snd y))" by blast
  have "fst (snd x) = (p1 @ p2) @ r2 \<and> st = (fst x + length (p1 @ p2), r2, snd (snd x))"
    using 1 2 by simp
  then show ?case by blast
next
  case (6 k a e inp caps)
  then show ?case by simp
next
  case (7 mn mx a e inp caps)
  from 7(3) have ga: "groups a = []" by simp
  show ?case
  proof (cases "mx = Some 0")
    case True
    with 7(4) show ?thesis by simp
  next
    case False
    have "st \<in> set (concat (map (\<lambda>(e', inp', caps').
                     if mn = 0 \<and> length inp \<le> length inp' then []
                     else ecma_matcher (Repeat (mn - 1) (map_option (\<lambda>m. m - 1) mx) a) (e', inp', caps'))
                   (ecma_matcher a (e, inp, clear (groups a) caps)))
           @ (if mn = 0 then [(e, inp, caps)] else []))"
      using 7(4) False unfolding ecma_matcher.simps(7) [of mn mx a e inp caps] by (simp del: ecma_matcher.simps)
    then consider
        (iter) y where "y \<in> set (ecma_matcher a (e, inp, caps))"
          "\<not> (mn = 0 \<and> length inp \<le> length (fst (snd y)))"
          "st \<in> set (ecma_matcher (Repeat (mn - 1) (map_option (\<lambda>m. m - 1) mx) a) y)"
      | (stop) "st = (e, inp, caps)"
      using ga by (auto simp del: ecma_matcher.simps split: if_splits prod.splits)
    then show ?thesis
    proof cases
      case iter
      from iter(1) have y': "y \<in> set (ecma_matcher a (e, inp, clear (groups a) caps))" using ga by simp
      from 7(1) [OF False ga y'] obtain p1 r1 where
        1: "inp = p1 @ r1" "y = (e + length p1, r1, caps)" using ga by auto
      obtain e' inp' caps' where yy: "y = (e', inp', caps')" by (cases y)
      have g: "groups (Repeat (mn - 1) (map_option (\<lambda>m. m - 1) mx) a) = []" using ga by simp
      from iter(2) have c: "\<not> (mn = 0 \<and> length inp \<le> length inp')" using yy by simp
      from iter(3) have s: "st \<in> set (ecma_matcher (Repeat (mn - 1) (map_option (\<lambda>m. m - 1) mx) a) (e', inp', caps'))"
        unfolding yy .
      from 7(2) [OF False y' [unfolded yy] refl refl c g s] obtain p2 r2 where
        2: "inp' = p2 @ r2" "st = (e' + length p2, r2, caps')" by auto
      have "inp = (p1 @ p2) @ r2 \<and> st = (e + length (p1 @ p2), r2, caps)"
        using 1 2 yy by simp
      then show ?thesis by (metis fst_conv snd_conv)
    next
      case stop
      then have "inp = [] @ inp \<and> st = (e + length ([] :: jsstring), inp, caps)" by simp
      then show ?thesis by (metis fst_conv snd_conv)
    qed
  qed
qed

lemma consumes_groupfree: "groups r = [] \<Longrightarrow> consumes r (\<lambda>x. True)"
  unfolding consumes_def using groupfree_steps by fastforce

lemma groups_seqs: "groups (seqs rs) = concat (map groups rs)"
  by (induction rs rule: seqs.induct) simp_all

lemma groups_absorb:
  "\<forall>r \<in> set cur. groups r = [] \<Longrightarrow> \<forall>r \<in> set (absorb cur ts). groups r = []"
  by (induction cur ts rule: absorb.induct) simp_all

lemma groups_widthBody: "groups (widthBody N) = []"
proof -
  have "\<forall>r \<in> set (absorb [Chars AnyChar] (braceToks N)). groups r = []"
    by (rule groups_absorb) simp
  then show ?thesis by (simp add: widthBody_def groups_seqs)
qed





subsection \<open>The first match\<close>

lemma firstMatchI: "ecma_matcher r x = y # ys \<Longrightarrow> firstMatch r x y"
  by (simp add: firstMatch_def)

lemma firstMatchD: "firstMatch r x y \<Longrightarrow> \<exists>ys. ecma_matcher r x = y # ys"
  by (cases "ecma_matcher r x") (simp_all add: firstMatch_def)

lemma first_Seq: "firstMatch a x y \<Longrightarrow> firstMatch b y z \<Longrightarrow> firstMatch (Seq a b) x z"
proof -
  assume "firstMatch a x y" "firstMatch b y z"
  then obtain ys zs where "ecma_matcher a x = y # ys" "ecma_matcher b y = z # zs"
    using firstMatchD by blast
  then show ?thesis by (simp add: firstMatch_def)
qed

lemma first_Group:
  assumes "firstMatch a (e, xs @ ys, caps) (e + length xs, ys, caps')"
  shows "firstMatch (Group k a) (e, xs @ ys, caps) (e + length xs, ys, caps'[k := Some xs])"
proof -
  from firstMatchD [OF assms] obtain zs where
    "ecma_matcher a (e, xs @ ys, caps) = (e + length xs, ys, caps') # zs" by blast
  then show ?thesis by (simp add: firstMatch_def)
qed

lemma run_stop: "ys = [] \<or> \<not> charset_mem cs (hd ys) \<Longrightarrow> run cs ys = 0"
  by (cases ys) auto

lemma run_append:
  "list_all (charset_mem cs) xs \<Longrightarrow> ys = [] \<or> \<not> charset_mem cs (hd ys) \<Longrightarrow>
   run cs (xs @ ys) = length xs"
  by (induction xs) (simp_all add: run_stop)

lemma run_prefix: "list_all (charset_mem cs) xs \<Longrightarrow> length xs \<le> run cs (xs @ ys)"
  by (induction xs) auto

lemma rev_upt_Suc: "m \<le> n \<Longrightarrow> rev [m..<Suc n] = n # rev [m..<n]"
  by simp

lemma first_star:
  assumes "list_all (charset_mem cs) xs" "ys = [] \<or> \<not> charset_mem cs (hd ys)"
  shows "firstMatch (Repeat 0 None (Chars cs)) (e, xs @ ys, caps) (e + length xs, ys, caps)"
  unfolding firstMatch_def star_eq run_append [OF assms]
  by (simp del: upt_Suc add: rev_upt_Suc)

lemma first_plus:
  assumes "list_all (charset_mem cs) xs" "ys = [] \<or> \<not> charset_mem cs (hd ys)" "xs \<noteq> []"
  shows "firstMatch (Repeat 1 None (Chars cs)) (e, xs @ ys, caps) (e + length xs, ys, caps)"
proof -
  have "Suc 0 \<le> length xs" using assms(3) by (simp add: Suc_le_eq)
  then show ?thesis
    unfolding firstMatch_def One_nat_def plus_eq run_append [OF assms(1,2)]
    by (simp del: upt_Suc add: rev_upt_Suc)
qed

lemma first_fixed:
  assumes "list_all (charset_mem cs) xs"
  shows "firstMatch (Repeat (length xs) (Some (length xs)) (Chars cs)) (e, xs @ ys, caps)
           (e + length xs, ys, caps)"
proof -
  have "length xs \<le> run cs (xs @ ys)"
    using assms by (induction xs) auto
  then show ?thesis
    unfolding firstMatch_def fixed_eq by simp
qed

lemma first_End: "firstMatch AssertEnd (e, [], caps) (e, [], caps)"
  by (simp add: firstMatch_def)

lemma first_Start: "firstMatch AssertStart (0, inp, caps) (0, inp, caps)"
  by (simp add: firstMatch_def)

lemma first_psAst:
  assumes w0: "list_all isSpace w0"
    and ds: "ds \<noteq> []" "list_all isDecimalDigit ds"
    and w1: "w1 \<noteq> []" "list_all isSpace w1"
    and f1: "f1 \<noteq> []" "\<not> isSpace (hd f1)" "list_all (\<lambda>x. \<not> isLineTerminator x) f1"
    and w2: "w2 \<noteq> []" "list_all isSpace w2"
    and f2: "f2 \<noteq> []" "\<not> isSpace (hd f2)" "list_all (\<lambda>x. \<not> isLineTerminator x) f2"
    and w3: "w3 \<noteq> []" "list_all isSpace w3"
    and f3: "f3 = [] \<or> \<not> isSpace (hd f3)" "list_all (\<lambda>x. \<not> isLineTerminator x) f3"
  shows "firstMatch
           (psAst (Repeat (length f1) (Some (length f1)) (Chars AnyChar))
                  (Repeat (length f2) (Some (length f2)) (Chars AnyChar)))
           (0, w0 @ ds @ w1 @ f1 @ w2 @ f2 @ w3 @ f3, [None, None, None, None, None])
           (length (w0 @ ds @ w1 @ f1 @ w2 @ f2 @ w3 @ f3), [],
            [None, Some ds, Some f1, Some f2, Some f3])"
proof -
  let ?ws = "Chars WhiteSpaceClass"
  let ?c0 = "[None, None, None, None, None] :: jsstring option list"
  have sp: "\<And>w. list_all isSpace w \<Longrightarrow> list_all (charset_mem WhiteSpaceClass) w"
    by (simp add: list_all_iff)
  have dot: "\<And>f. list_all (\<lambda>x. \<not> isLineTerminator x) f \<Longrightarrow> list_all (charset_mem AnyChar) f"
    by (simp add: list_all_iff)
  have dg: "list_all (charset_mem (ClassRanges [(0x30, 0x39)])) ds"
    using ds(2) by (simp add: list_all_iff isDecimalDigit_def)
  have hd_ds: "\<not> charset_mem WhiteSpaceClass (hd (ds @ w1 @ f1 @ w2 @ f2 @ w3 @ f3))"
    using ds by (cases ds) (auto simp: digit_not_space)
  have hd_w1: "\<not> charset_mem (ClassRanges [(0x30, 0x39)]) (hd (w1 @ f1 @ w2 @ f2 @ w3 @ f3))"
    using w1 digit_not_space [of "hd w1"] by (cases w1) (auto simp: isDecimalDigit_def)
  have hd_f1: "\<not> charset_mem WhiteSpaceClass (hd (f1 @ w2 @ f2 @ w3 @ f3))"
    using f1(1,2) by (cases f1) auto
  have hd_f2: "\<not> charset_mem WhiteSpaceClass (hd (f2 @ w3 @ f3))"
    using f2(1,2) by (cases f2) auto
  have hd_f3: "f3 = [] \<or> \<not> charset_mem WhiteSpaceClass (hd f3)"
    using f3(1) by simp
  have 1: "firstMatch (Repeat 0 None ?ws) (0, w0 @ ds @ w1 @ f1 @ w2 @ f2 @ w3 @ f3, ?c0)
             (0 + length w0, ds @ w1 @ f1 @ w2 @ f2 @ w3 @ f3, ?c0)"
    by (rule first_star [OF sp [OF w0] ]) (rule disjI2, rule hd_ds)
  have 2: "firstMatch (Group 1 (Repeat 1 None (Chars (ClassRanges [(0x30, 0x39)]))))
             (0 + length w0, ds @ w1 @ f1 @ w2 @ f2 @ w3 @ f3, ?c0)
             (0 + length w0 + length ds, w1 @ f1 @ w2 @ f2 @ w3 @ f3, ?c0[1 := Some ds])"
    by (rule first_Group, rule first_plus [OF dg _ ds(1)]) (rule disjI2, rule hd_w1)
  have 3: "firstMatch (Repeat 1 None ?ws)
             (0 + length w0 + length ds, w1 @ f1 @ w2 @ f2 @ w3 @ f3, ?c0[1 := Some ds])
             (0 + length w0 + length ds + length w1, f1 @ w2 @ f2 @ w3 @ f3, ?c0[1 := Some ds])"
    by (rule first_plus [OF sp [OF w1(2)] _ w1(1)]) (rule disjI2, rule hd_f1)
  have 4: "firstMatch (Group 2 (Repeat (length f1) (Some (length f1)) (Chars AnyChar)))
             (0 + length w0 + length ds + length w1, f1 @ w2 @ f2 @ w3 @ f3, ?c0[1 := Some ds])
             (0 + length w0 + length ds + length w1 + length f1, w2 @ f2 @ w3 @ f3,
              ?c0[1 := Some ds, 2 := Some f1])"
    by (rule first_Group, rule first_fixed [OF dot [OF f1(3)] ])
  have 5: "firstMatch (Repeat 1 None ?ws)
             (0 + length w0 + length ds + length w1 + length f1, w2 @ f2 @ w3 @ f3,
              ?c0[1 := Some ds, 2 := Some f1])
             (0 + length w0 + length ds + length w1 + length f1 + length w2, f2 @ w3 @ f3,
              ?c0[1 := Some ds, 2 := Some f1])"
    by (rule first_plus [OF sp [OF w2(2)] _ w2(1)]) (rule disjI2, rule hd_f2)
  have 6: "firstMatch (Group 3 (Repeat (length f2) (Some (length f2)) (Chars AnyChar)))
             (0 + length w0 + length ds + length w1 + length f1 + length w2, f2 @ w3 @ f3,
              ?c0[1 := Some ds, 2 := Some f1])
             (0 + length w0 + length ds + length w1 + length f1 + length w2 + length f2, w3 @ f3,
              ?c0[1 := Some ds, 2 := Some f1, 3 := Some f2])"
    by (rule first_Group, rule first_fixed [OF dot [OF f2(3)] ])
  have 7: "firstMatch (Repeat 1 None ?ws)
             (0 + length w0 + length ds + length w1 + length f1 + length w2 + length f2, w3 @ f3,
              ?c0[1 := Some ds, 2 := Some f1, 3 := Some f2])
             (0 + length w0 + length ds + length w1 + length f1 + length w2 + length f2 + length w3,
              f3, ?c0[1 := Some ds, 2 := Some f1, 3 := Some f2])"
    by (rule first_plus [OF sp [OF w3(2)] hd_f3 w3(1)])
  have 8: "firstMatch (Group 4 (Repeat 0 None (Chars AnyChar)))
             (0 + length w0 + length ds + length w1 + length f1 + length w2 + length f2 + length w3,
              f3 @ [], ?c0[1 := Some ds, 2 := Some f1, 3 := Some f2])
             (0 + length w0 + length ds + length w1 + length f1 + length w2 + length f2 + length w3
              + length f3, [], ?c0[1 := Some ds, 2 := Some f1, 3 := Some f2, 4 := Some f3])"
    by (rule first_Group, rule first_star [OF dot [OF f3(2)] ]) simp
  note 8 = 8 [unfolded append_Nil2]
  have 9: "firstMatch AssertEnd
             (0 + length w0 + length ds + length w1 + length f1 + length w2 + length f2 + length w3
              + length f3, [], ?c0[1 := Some ds, 2 := Some f1, 3 := Some f2, 4 := Some f3])
             (0 + length w0 + length ds + length w1 + length f1 + length w2 + length f2 + length w3
              + length f3, [], ?c0[1 := Some ds, 2 := Some f1, 3 := Some f2, 4 := Some f3])"
    by (rule first_End)
  have "firstMatch
           (psAst (Repeat (length f1) (Some (length f1)) (Chars AnyChar))
                  (Repeat (length f2) (Some (length f2)) (Chars AnyChar)))
           (0, w0 @ ds @ w1 @ f1 @ w2 @ f2 @ w3 @ f3, ?c0)
           (0 + length w0 + length ds + length w1 + length f1 + length w2 + length f2 + length w3
              + length f3, [], ?c0[1 := Some ds, 2 := Some f1, 3 := Some f2, 4 := Some f3])"
    unfolding psAst_def
    by (intro first_Seq [OF first_Start] first_Seq [OF 1] first_Seq [OF 2] first_Seq [OF 3]
        first_Seq [OF 4] first_Seq [OF 5] first_Seq [OF 6] first_Seq [OF 7]
        first_Seq [OF 8] 9)
  then show ?thesis by (simp add: add.assoc)
qed

subsection \<open>The engine and the matcher of ECMAScript\<close>

text \<open>
  The engine does what ECMAScript specifies until its stack is exhausted
  (\<open>matcher_follows\<close>, \<open>RegExp_exec_follows\<close>). On a tame pattern the stack holds at
  most as many iterations as the pattern has upper bounds to give and as the input
  has code units (\<open>matcher_usage\<close>), so that it is not exhausted when one of the two
  is within the limit (\<open>matcher_no_overflow\<close>, \<open>RegExp_exec_ok\<close>). It is exhausted
  when a counted loop has more iterations to make than the limit and finds the input
  for them (\<open>loop_overflow\<close>, \<open>captures_overflow\<close>).
\<close>

lemma follows_append: "follows xs ys \<Longrightarrow> follows xs' ys' \<Longrightarrow> follows (xs @ xs') (ys @ ys')"
proof (induction xs ys rule: follows.induct)
  case (3 x xs ys)
  then show ?case by (cases ys) auto
qed simp_all

lemma follows_concat:
  assumes "follows xs ys"
    and "\<And>x. Some x \<in> set xs \<Longrightarrow> follows (f x) (g (forget x))"
  shows "follows (concat (map (\<lambda>y. case y of None \<Rightarrow> [None] | Some x \<Rightarrow> f x) xs))
           (concat (map g ys))"
  using assms
proof (induction xs ys rule: follows.induct)
  case (3 x xs ys)
  from 3(2) obtain ys' where ys: "ys = forget x # ys'" and f: "follows xs ys'"
    by (cases ys) auto
  have a: "follows (f x) (g (forget x))" by (rule 3(3)) simp
  have b: "follows (concat (map (\<lambda>y. case y of None \<Rightarrow> [None] | Some x \<Rightarrow> f x) xs))
             (concat (map g ys'))"
    by (rule 3(1) [OF ys f]) (simp add: 3(3))
  show ?case using follows_append [OF a b] by (simp add: ys)
qed simp_all

lemma follows_map:
  assumes "follows xs ys" and "\<And>x. forget (f x) = g (forget x)"
  shows "follows (map (map_option f) xs) (map g ys)"
  using assms(1)
proof (induction xs ys rule: follows.induct)
  case (3 x xs ys)
  then show ?case by (cases ys) (auto simp: assms(2))
qed simp_all

lemma follows_Some: "follows [Some x] [forget x]"
  by simp

lemma matcher_follows:
  "follows (matcher k r x) (ecma_matcher r (forget x))"
proof (induction k r x rule: matcher.induct)
  case (1 k x)
  then show ?case by simp
next
  case (2 k cs e inp caps n)
  then show ?case by (simp split: list.splits)
next
  case (3 k e inp caps n)
  then show ?case by simp
next
  case (4 k e inp caps n)
  then show ?case by simp
next
  case (5 k a b x)
  show ?case
    unfolding matcher.simps ecma_matcher.simps
    by (rule follows_concat [OF 5(1)]) (rule 5(2), assumption, rule refl)
next
  case (6 k g a e inp caps n)
  have "follows
     (map (map_option (\<lambda>(e', inp', caps', n'). (e', inp', caps'[g := Some (take (e' - e) inp)], n')))
        (matcher False a (e, inp, caps, n)))
     (map (\<lambda>(e', inp', caps'). (e', inp', caps'[g := Some (take (e' - e) inp)]))
        (ecma_matcher a (forget (e, inp, caps, n))))"
    by (rule follows_map [OF 6]) auto
  then show ?case by simp
next
  case (7 k mn mx a e inp caps n)
  show ?case
  proof (cases "mx = Some 0")
    case True
    then show ?thesis by simp
  next
    case nz: False
    show ?thesis
    proof (cases "counted k mn mx \<and> stackLimit \<le> n")
      case True
      then show ?thesis using nz by simp
    next
      case False
      have b: "follows (matcher False a (e, inp, clear (groups a) caps, if counted k mn mx then Suc n else n))
                 (ecma_matcher a (e, inp, clear (groups a) caps))"
        using 7(1) [OF nz False] by simp
      have "follows
         (concat (map (\<lambda>y. case y of None \<Rightarrow> [None]
                       | Some x \<Rightarrow> (case x of (e', inp', caps', n') \<Rightarrow>
                           if mn = 0 \<and> length inp \<le> length inp' then []
                           else matcher (counted k mn mx)
                                  (Repeat (mn - 1) (map_option (\<lambda>m. m - 1) mx) a)
                                  (e', inp', caps', n')))
                   (matcher False a
                      (e, inp, clear (groups a) caps, if counted k mn mx then Suc n else n))))
         (concat (map (\<lambda>(e', inp', caps').
                     if mn = 0 \<and> length inp \<le> length inp' then []
                     else ecma_matcher (Repeat (mn - 1) (map_option (\<lambda>m. m - 1) mx) a) (e', inp', caps'))
                   (ecma_matcher a (e, inp, clear (groups a) caps))))"
      proof (rule follows_concat [OF b], goal_cases)
        case (1 x)
        obtain e' inp' caps' n' where x: "x = (e', inp', caps', n')" by (cases x)
        show ?case
          using 7(2) [OF nz False 1 [unfolded x] refl refl refl] by (simp add: x)
      qed
      then have "follows
         (concat (map (\<lambda>y. case y of None \<Rightarrow> [None]
                       | Some x \<Rightarrow> (case x of (e', inp', caps', n') \<Rightarrow>
                           if mn = 0 \<and> length inp \<le> length inp' then []
                           else matcher (counted k mn mx)
                                  (Repeat (mn - 1) (map_option (\<lambda>m. m - 1) mx) a)
                                  (e', inp', caps', n')))
                   (matcher False a
                      (e, inp, clear (groups a) caps, if counted k mn mx then Suc n else n)))
            @ (if mn = 0 then [Some (e, inp, caps, n)] else []))
         (concat (map (\<lambda>(e', inp', caps').
                     if mn = 0 \<and> length inp \<le> length inp' then []
                     else ecma_matcher (Repeat (mn - 1) (map_option (\<lambda>m. m - 1) mx) a) (e', inp', caps'))
                   (ecma_matcher a (e, inp, clear (groups a) caps)))
            @ (if mn = 0 then [(e, inp, caps)] else []))"
        by (rule follows_append) simp
      then show ?thesis
        unfolding forget.simps
        by (subst matcher.simps(7), subst ecma_matcher.simps(7))
           (simp only: nz False if_False)
    qed
  qed
qed

lemma exec_from_follows:
  "exec_from r i inp = Inl RangeError \<or> exec_from r i inp = Inr (ecma_exec_from r i inp)"
proof (induction inp arbitrary: i)
  case Nil
  let ?x = "(i, [], replicate (Suc (length (groups r))) None, 0::nat)"
  have f: "follows (matcher False r ?x) (ecma_matcher r (i, [], replicate (Suc (length (groups r))) None))"
    using matcher_follows [of False r ?x] by simp
  show ?case
  proof (cases "matcher False r ?x")
    case Nil
    with f show ?thesis
      unfolding exec_from.simps [of r i "[]"] ecma_exec_from.simps [of r i "[]"] by simp
  next
    case (Cons w ws)
    with f show ?thesis
      unfolding exec_from.simps [of r i "[]"] ecma_exec_from.simps [of r i "[]"]
      by (auto split: list.splits option.splits)
  qed
next
  case (Cons c inp)
  let ?x = "(i, c # inp, replicate (Suc (length (groups r))) None, 0::nat)"
  have f: "follows (matcher False r ?x)
             (ecma_matcher r (i, c # inp, replicate (Suc (length (groups r))) None))"
    using matcher_follows [of False r ?x] by simp
  show ?case
  proof (cases "matcher False r ?x")
    case Nil
    with f Cons.IH [of "Suc i"] show ?thesis
      unfolding exec_from.simps [of r i "c # inp"] ecma_exec_from.simps [of r i "c # inp"] by auto
  next
    case (Cons w ws)
    with f show ?thesis
      unfolding exec_from.simps [of r i "c # inp"] ecma_exec_from.simps [of r i "c # inp"]
      by (auto split: list.splits option.splits)
  qed
qed

lemma in_concat_case:
  "Some y \<in> set (concat (map (\<lambda>w. case w of None \<Rightarrow> [None] | Some z \<Rightarrow> f z) L)) \<Longrightarrow>
     \<exists>z. Some z \<in> set L \<and> Some y \<in> set (f z)"
  by (auto split: option.splits)

lemma RegExp_exec_follows:
  "RegExp_exec r s = Inl RangeError \<or> RegExp_exec r s = Inr (ecma_exec r s)"
  unfolding RegExp_exec_def ecma_exec_def by (rule exec_from_follows)

lemma matcher_usage:
  "Some y \<in> set (matcher k r x) \<Longrightarrow> tame r \<Longrightarrow> (k \<longrightarrow> capped r) \<Longrightarrow>
     used y \<le> used x + loopBound r \<and> used y + left y \<le> used x + left x"
proof (induction k r x arbitrary: y rule: matcher.induct)
  case (1 k x)
  then show ?case by simp
next
  case (2 k cs e inp caps n)
  then show ?case by (auto split: list.splits if_splits)
next
  case (3 k e inp caps n)
  then show ?case by (auto split: if_splits)
next
  case (4 k e inp caps n)
  then show ?case by (auto split: if_splits)
next
  case (5 k a b x)
  from 5(3) obtain z where z: "Some z \<in> set (matcher False a x)" "Some y \<in> set (matcher False b z)"
    by (auto split: option.splits)
  from 5(1) [OF z(1)] 5(2) [OF z(1) refl z(2)] 5(4)
  show ?case by auto
next
  case (6 k g a e inp caps n)
  from 6(2) obtain z where z: "Some z \<in> set (matcher False a (e, inp, caps, n))"
      "used y = used z" "left y = left z"
    by (cases y) (auto simp: map_option_case split: option.splits)
  from 6(1) [OF z(1)] 6(3) z(2,3) show ?case by simp
next
  case (7 k mn mx a e inp caps n)
  from 7(4) obtain cs where a: "a = Chars cs" and t: "mn \<le> 3 \<or> mx \<noteq> None"
    by (cases a) auto
  show ?case
  proof (cases "mx = Some 0")
    case True
    with 7(3) show ?thesis by simp
  next
    case nz: False
    show ?thesis
    proof (cases "counted k mn mx \<and> stackLimit \<le> n")
      case True
      with 7(3) nz show ?thesis by simp
    next
      case False
      let ?n = "if counted k mn mx then Suc n else n"
      have m: "matcher k (Repeat mn mx a) (e, inp, caps, n) =
          concat (map (\<lambda>y. case y of None \<Rightarrow> [None]
                       | Some (e', inp', caps', n') \<Rightarrow>
                           if mn = 0 \<and> length inp \<le> length inp' then []
                           else matcher (counted k mn mx)
                                  (Repeat (mn - 1) (map_option (\<lambda>m. m - 1) mx) a)
                                  (e', inp', caps', n'))
                   (matcher False a (e, inp, clear (groups a) caps, ?n)))
            @ (if mn = 0 then [Some (e, inp, caps, n)] else [])"
        by (subst matcher.simps(7)) (simp only: nz False if_False)
      from 7(3) [unfolded m]
      have "y = (e, inp, caps, n) \<or>
        (\<exists>z. Some z \<in> set (matcher False a (e, inp, clear (groups a) caps, ?n)) \<and>
          \<not> (mn = 0 \<and> length inp \<le> left z) \<and>
          Some y \<in> set (matcher (counted k mn mx) (Repeat (mn - 1) (map_option (\<lambda>m. m - 1) mx) a) z))"
      proof (simp only: set_append Un_iff, elim disjE)
        assume "Some y \<in> set (concat (map (\<lambda>y. case y of None \<Rightarrow> [None]
                       | Some (e', inp', caps', n') \<Rightarrow>
                           if mn = 0 \<and> length inp \<le> length inp' then []
                           else matcher (counted k mn mx)
                                  (Repeat (mn - 1) (map_option (\<lambda>m. m - 1) mx) a)
                                  (e', inp', caps', n'))
                   (matcher False a (e, inp, clear (groups a) caps, ?n))))"
        from in_concat_case [OF this] obtain z where
          z: "Some z \<in> set (matcher False a (e, inp, clear (groups a) caps, ?n))"
             "Some y \<in> set (case z of (e', inp', caps', n') \<Rightarrow>
                           if mn = 0 \<and> length inp \<le> length inp' then []
                           else matcher (counted k mn mx)
                                  (Repeat (mn - 1) (map_option (\<lambda>m. m - 1) mx) a)
                                  (e', inp', caps', n'))"
          by blast
        obtain e' inp' caps' n' where zz: "z = (e', inp', caps', n')" by (cases z)
        from z show ?thesis
          by (intro disjI2 exI [of _ z]) (auto simp: zz simp del: matcher.simps split: if_splits)
      next
        assume "Some y \<in> set (if mn = 0 then [Some (e, inp, caps, n)] else [])"
        then show ?thesis by (auto split: if_splits)
      qed
      then show ?thesis
      proof
        assume "y = (e, inp, caps, n)"
        then show ?thesis by simp
      next
        assume "\<exists>z. Some z \<in> set (matcher False a (e, inp, clear (groups a) caps, ?n)) \<and>
          \<not> (mn = 0 \<and> length inp \<le> left z) \<and>
          Some y \<in> set (matcher (counted k mn mx) (Repeat (mn - 1) (map_option (\<lambda>m. m - 1) mx) a) z)"
        then obtain z where z: "Some z \<in> set (matcher False a (e, inp, clear (groups a) caps, ?n))"
          "\<not> (mn = 0 \<and> length inp \<le> left z)"
          "Some y \<in> set (matcher (counted k mn mx) (Repeat (mn - 1) (map_option (\<lambda>m. m - 1) mx) a) z)"
          by blast
        obtain e' inp' caps' n' where zz: "z = (e', inp', caps', n')" by (cases z)
        have zc: "n' = ?n" "Suc (length inp') = length inp"
          using z(1) by (auto simp: a zz split: list.splits if_splits)
        have c: "counted k mn mx \<longrightarrow> mx \<noteq> None"
          using t 7(5) by (cases mx) (auto simp: counted_def)
        have ih: "used y \<le> used z + loopBound (Repeat (mn - 1) (map_option (\<lambda>m. m - 1) mx) a) \<and>
                  used y + left y \<le> used z + left z"
        proof -
          have cond: "\<not> (mn = 0 \<and> length inp \<le> length inp')" using z(2) by (simp add: zz)
          have tm: "tame (Repeat (mn - 1) (map_option (\<lambda>m. m - 1) mx) a)"
            using t by (auto simp: a)
          have cp: "counted k mn mx \<longrightarrow> capped (Repeat (mn - 1) (map_option (\<lambda>m. m - 1) mx) a)"
            using c by simp
          show ?thesis
            using 7(2) [OF nz False z(1) [unfolded zz] refl refl refl refl cond z(3) [unfolded zz] tm cp]
            by (simp add: zz)
        qed
        show ?thesis
          using ih zc nz c by (cases mx) (auto simp: zz split: if_splits)
      qed
    qed
  qed
qed

lemma None_in_concat_case:
  "None \<in> set (concat (map (\<lambda>w. case w of None \<Rightarrow> [None] | Some z \<Rightarrow> f z) L)) \<Longrightarrow>
     None \<in> set L \<or> (\<exists>z. Some z \<in> set L \<and> None \<in> set (f z))"
proof (induction L)
  case (Cons w L)
  then show ?case by (cases w) auto
qed simp

lemma matcher_no_overflow:
  "tame r \<Longrightarrow> (k \<longrightarrow> capped r) \<Longrightarrow>
   used x + loopBound r \<le> stackLimit \<or> used x + left x < stackLimit \<Longrightarrow>
   None \<notin> set (matcher k r x)"
proof (induction k r x rule: matcher.induct)
  case (1 k x)
  then show ?case by simp
next
  case (2 k cs e inp caps n)
  then show ?case by (auto split: list.splits)
next
  case (3 k e inp caps n)
  then show ?case by simp
next
  case (4 k e inp caps n)
  then show ?case by simp
next
  case (5 k a b x)
  show ?case
  proof
    assume "None \<in> set (matcher k (Seq a b) x)"
    then have "None \<in> set (concat (map (\<lambda>y. case y of None \<Rightarrow> [None] | Some x' \<Rightarrow> matcher False b x')
               (matcher False a x)))"
      by simp
    from None_in_concat_case [OF this]
    show False
    proof
      assume "None \<in> set (matcher False a x)"
      moreover have "None \<notin> set (matcher False a x)"
        using 5(3,5) by (intro 5(1)) auto
      ultimately show False by simp
    next
      assume "\<exists>z. Some z \<in> set (matcher False a x) \<and> None \<in> set (matcher False b z)"
      then obtain z where z: "Some z \<in> set (matcher False a x)" "None \<in> set (matcher False b z)"
        by blast
      have u: "used z \<le> used x + loopBound a \<and> used z + left z \<le> used x + left x"
        using 5(3) by (intro matcher_usage [OF z(1)]) auto
      have "None \<notin> set (matcher False b z)"
        using 5(3,5) u by (intro 5(2) [OF z(1) refl]) auto
      with z(2) show False by simp
    qed
  qed
next
  case (6 k g a e inp caps n)
  have "None \<notin> set (matcher False a (e, inp, caps, n))"
    using 6(2,4) by (intro 6(1)) auto
  then show ?case by auto
next
  case (7 k mn mx a e inp caps n)
  from 7(3) obtain cs where a: "a = Chars cs" and t: "mn \<le> 3 \<or> mx \<noteq> None"
    by (cases a) auto
  have c: "counted k mn mx \<longrightarrow> mx \<noteq> None"
    using t 7(4) by (cases mx) (auto simp: counted_def)
  show ?case
  proof (cases "mx = Some 0")
    case True
    then show ?thesis by simp
  next
    case nz: False
    have lim: "counted k mn mx \<longrightarrow> n < stackLimit"
      using 7(5) c nz by (cases mx) auto
    then have False: "\<not> (counted k mn mx \<and> stackLimit \<le> n)" by auto
    let ?n = "if counted k mn mx then Suc n else n"
    have m: "matcher k (Repeat mn mx a) (e, inp, caps, n) =
          concat (map (\<lambda>y. case y of None \<Rightarrow> [None]
                       | Some (e', inp', caps', n') \<Rightarrow>
                           if mn = 0 \<and> length inp \<le> length inp' then []
                           else matcher (counted k mn mx)
                                  (Repeat (mn - 1) (map_option (\<lambda>m. m - 1) mx) a)
                                  (e', inp', caps', n'))
                   (matcher False a (e, inp, clear (groups a) caps, ?n)))
            @ (if mn = 0 then [Some (e, inp, caps, n)] else [])"
      by (subst matcher.simps(7)) (simp only: nz False if_False)
    show ?thesis
    proof
      assume "None \<in> set (matcher k (Repeat mn mx a) (e, inp, caps, n))"
      then have "None \<in> set (concat (map (\<lambda>y. case y of None \<Rightarrow> [None]
                       | Some (e', inp', caps', n') \<Rightarrow>
                           if mn = 0 \<and> length inp \<le> length inp' then []
                           else matcher (counted k mn mx)
                                  (Repeat (mn - 1) (map_option (\<lambda>m. m - 1) mx) a)
                                  (e', inp', caps', n'))
                   (matcher False a (e, inp, clear (groups a) caps, ?n))))"
        unfolding m by (auto split: if_splits)
      from None_in_concat_case [OF this]
      show False
      proof
        assume "None \<in> set (matcher False a (e, inp, clear (groups a) caps, ?n))"
        then show False by (auto simp: a split: list.splits if_splits)
      next
        assume "\<exists>z. Some z \<in> set (matcher False a (e, inp, clear (groups a) caps, ?n)) \<and>
           None \<in> set (case z of (e', inp', caps', n') \<Rightarrow>
                           if mn = 0 \<and> length inp \<le> length inp' then []
                           else matcher (counted k mn mx)
                                  (Repeat (mn - 1) (map_option (\<lambda>m. m - 1) mx) a)
                                  (e', inp', caps', n'))"
        then obtain z where z: "Some z \<in> set (matcher False a (e, inp, clear (groups a) caps, ?n))"
          "None \<in> set (case z of (e', inp', caps', n') \<Rightarrow>
                           if mn = 0 \<and> length inp \<le> length inp' then []
                           else matcher (counted k mn mx)
                                  (Repeat (mn - 1) (map_option (\<lambda>m. m - 1) mx) a)
                                  (e', inp', caps', n'))"
          by blast
        obtain e' inp' caps' n' where zz: "z = (e', inp', caps', n')" by (cases z)
        have zc: "n' = ?n" "Suc (length inp') = length inp"
          using z(1) by (auto simp: a zz split: list.splits if_splits)
        have cond: "\<not> (mn = 0 \<and> length inp \<le> length inp')" using zc by simp
        have z3: "None \<in> set (matcher (counted k mn mx)
                                  (Repeat (mn - 1) (map_option (\<lambda>m. m - 1) mx) a)
                                  (e', inp', caps', n'))"
          using z(2) cond by (simp add: zz del: matcher.simps)
        have tm: "tame (Repeat (mn - 1) (map_option (\<lambda>m. m - 1) mx) a)"
          using t by (auto simp: a)
        have cp: "counted k mn mx \<longrightarrow> capped (Repeat (mn - 1) (map_option (\<lambda>m. m - 1) mx) a)"
          using c by simp
        have pr: "used (e', inp', caps', n') + loopBound (Repeat (mn - 1) (map_option (\<lambda>m. m - 1) mx) a)
                     \<le> stackLimit \<or>
                  used (e', inp', caps', n') + left (e', inp', caps', n') < stackLimit"
          using 7(5) zc nz c by (cases mx) (auto split: if_splits)
        from 7(2) [OF nz False z(1) [unfolded zz] refl refl refl refl cond tm cp pr] z3
        show False by simp
      qed
    qed
  qed
qed

lemma exec_from_ok:
  assumes "tame r"
  shows "loopBound r \<le> stackLimit \<or> length inp < stackLimit \<Longrightarrow>
         exec_from r i inp = Inr (ecma_exec_from r i inp)"
proof (induction inp arbitrary: i)
  case Nil
  have "None \<notin> set (matcher False r (i, [], replicate (Suc (length (groups r))) None, 0))"
    using assms Nil by (intro matcher_no_overflow) auto
  then have "exec_from r i [] \<noteq> Inl RangeError"
    unfolding exec_from.simps [of r i "[]"] by (auto split: list.splits option.splits)
  with exec_from_follows [of r i "[]"] show ?case by simp
next
  case (Cons c inp)
  have n: "None \<notin> set (matcher False r (i, c # inp, replicate (Suc (length (groups r))) None, 0))"
    using assms Cons(2) by (intro matcher_no_overflow) auto
  have "exec_from r (Suc i) inp = Inr (ecma_exec_from r (Suc i) inp)"
    using Cons(2) by (intro Cons(1)) auto
  with n have "exec_from r i (c # inp) \<noteq> Inl RangeError"
    unfolding exec_from.simps [of r i "c # inp"] by (auto split: list.splits option.splits)
  with exec_from_follows [of r i "c # inp"] show ?case by simp
qed

lemma RegExp_exec_ok:
  "tame r \<Longrightarrow> loopBound r \<le> stackLimit \<or> length s < stackLimit \<Longrightarrow>
   RegExp_exec r s = Inr (ecma_exec r s)"
  unfolding RegExp_exec_def ecma_exec_def by (rule exec_from_ok)

lemma firstWayD: "firstWay r x w \<Longrightarrow> \<exists>ws. matcher False r x = w # ws"
  by (cases "matcher False r x") (simp_all add: firstWay_def)

lemma first_free:
  assumes "tame r" "loopBound r = 0" "firstMatch r (e, inp, caps) (e', inp', caps')"
  shows "firstWay r (e, inp, caps, 0) (Some (e', inp', caps', 0))"
proof -
  let ?x = "(e, inp, caps, 0::nat)"
  have n: "None \<notin> set (matcher False r ?x)"
    using assms(1,2) by (intro matcher_no_overflow) auto
  from firstMatchD [OF assms(3)] obtain ys where
    y: "ecma_matcher r (e, inp, caps) = (e', inp', caps') # ys" by blast
  have f: "follows (matcher False r ?x) (ecma_matcher r (e, inp, caps))"
    using matcher_follows [of False r ?x] by simp
  have "\<exists>z zs. matcher False r ?x = Some z # zs \<and> forget z = (e', inp', caps')"
  proof (cases "matcher False r ?x")
    case Nil
    with f y show ?thesis by simp
  next
    case (Cons w ws)
    with n obtain z where "w = Some z" by (cases w) auto
    with Cons f y show ?thesis by simp
  qed
  then obtain z zs where z: "matcher False r ?x = Some z # zs" "forget z = (e', inp', caps')"
    by blast
  have "used z \<le> used ?x + loopBound r"
    using matcher_usage [of z False r ?x] z(1) assms(1) by simp
  then have "used z = 0" using assms(2) by simp
  with z(2) have "z = (e', inp', caps', 0)" by (cases z) auto
  with z(1) show ?thesis by (simp add: firstWay_def)
qed

lemma way_Seq: "firstWay a x (Some y) \<Longrightarrow> firstWay b y w \<Longrightarrow> firstWay (Seq a b) x w"
proof -
  assume "firstWay a x (Some y)" "firstWay b y w"
  then obtain ys ws where "matcher False a x = Some y # ys" "matcher False b y = w # ws"
    using firstWayD by blast
  then show ?thesis by (simp add: firstWay_def)
qed

lemma way_Seq_None: "firstWay a x None \<Longrightarrow> firstWay (Seq a b) x None"
proof -
  assume "firstWay a x None"
  then obtain ys where "matcher False a x = None # ys"
    using firstWayD by blast
  then show ?thesis by (simp add: firstWay_def)
qed

lemma way_Group_None: "firstWay a (e, inp, caps, n) None \<Longrightarrow> firstWay (Group g a) (e, inp, caps, n) None"
proof -
  assume "firstWay a (e, inp, caps, n) None"
  then obtain ys where "matcher False a (e, inp, caps, n) = None # ys"
    using firstWayD by blast
  then show ?thesis by (simp add: firstWay_def)
qed

lemma loop_overflow:
  assumes "0 < mn" "mn \<le> m" "counted k mn (Some m)"
    and "stackLimit < n + mn" "stackLimit \<le> n + run cs inp"
  shows "matcher k (Repeat mn (Some m) (Chars cs)) (e, inp, caps, n) = [None]"
  using assms
proof (induction inp arbitrary: e n mn m k)
  case Nil
  then show ?case by (subst matcher.simps(7)) simp
next
  case (Cons c inp)
  show ?case
  proof (cases "stackLimit \<le> n")
    case True
    with Cons(2-4) show ?thesis by (subst matcher.simps(7)) simp
  next
    case False
    with Cons(6) have c: "charset_mem cs c" and r: "stackLimit \<le> Suc n + run cs inp"
      by (auto split: if_splits)
    have mn: "0 < mn - 1" "mn - 1 \<le> m - 1" "stackLimit < Suc n + (mn - 1)"
      using False Cons(2,3,5) by auto
    have k: "counted True (mn - 1) (Some (m - 1))" by (simp add: counted_def)
    have ih: "matcher True (Repeat (mn - 1) (Some (m - 1)) (Chars cs)) (Suc e, inp, caps, Suc n) = [None]"
      by (rule Cons(1) [OF mn(1,2) k mn(3) r])
    show ?thesis
      using False Cons(2-4) c ih
      by (subst matcher.simps(7)) (simp del: matcher.simps(7))
  qed
qed

lemma exec_overflow:
  assumes "firstWay r (0, s, replicate (Suc (length (groups r))) None, 0) None"
  shows "RegExp_exec r s = Inl RangeError"
proof -
  from firstWayD [OF assms] obtain ws where
    "matcher False r (0, s, replicate (Suc (length (groups r))) None, 0) = None # ws" by blast
  then show ?thesis
    unfolding RegExp_exec_def exec_from.simps [of r 0 s] by simp
qed

lemma way_psAst_overflow:
  assumes w0: "list_all isSpace w0"
    and ds: "ds \<noteq> []" "list_all isDecimalDigit ds"
    and w1: "w1 \<noteq> []" "list_all isSpace w1"
    and rest: "rest \<noteq> []" "\<not> isSpace (hd rest)" "stackLimit \<le> run AnyChar rest"
    and N: "stackLimit < N"
  shows "firstWay (psAst (Repeat N (Some N) (Chars AnyChar)) b3)
           (0, w0 @ ds @ w1 @ rest, [None, None, None, None, None], 0) None"
proof -
  let ?ws = "Chars WhiteSpaceClass"
  let ?c0 = "[None, None, None, None, None] :: jsstring option list"
  have sp: "\<And>w. list_all isSpace w \<Longrightarrow> list_all (charset_mem WhiteSpaceClass) w"
    by (simp add: list_all_iff)
  have dg: "list_all (charset_mem (ClassRanges [(0x30, 0x39)])) ds"
    using ds(2) by (simp add: list_all_iff isDecimalDigit_def)
  have hd_ds: "\<not> charset_mem WhiteSpaceClass (hd (ds @ w1 @ rest))"
    using ds by (cases ds) (auto simp: digit_not_space)
  have hd_w1: "\<not> charset_mem (ClassRanges [(0x30, 0x39)]) (hd (w1 @ rest))"
    using w1 digit_not_space [of "hd w1"] by (cases w1) (auto simp: isDecimalDigit_def)
  have hd_rest: "\<not> charset_mem WhiteSpaceClass (hd rest)"
    using rest(2) by simp
  have 0: "firstWay AssertStart (0, w0 @ ds @ w1 @ rest, ?c0, 0) (Some (0, w0 @ ds @ w1 @ rest, ?c0, 0))"
    by (simp add: firstWay_def)
  have 1: "firstWay (Repeat 0 None ?ws) (0, w0 @ ds @ w1 @ rest, ?c0, 0)
             (Some (0 + length w0, ds @ w1 @ rest, ?c0, 0))"
    by (rule first_free [OF _ _ first_star [OF sp [OF w0] ] ]) (simp, simp, rule disjI2, rule hd_ds)
  have 2: "firstWay (Group 1 (Repeat 1 None (Chars (ClassRanges [(0x30, 0x39)]))))
             (0 + length w0, ds @ w1 @ rest, ?c0, 0)
             (Some (0 + length w0 + length ds, w1 @ rest, ?c0[1 := Some ds], 0))"
    by (rule first_free [OF _ _ first_Group [OF first_plus [OF dg _ ds(1)] ] ]) (simp, simp, rule disjI2, rule hd_w1)
  have 3: "firstWay (Repeat 1 None ?ws)
             (0 + length w0 + length ds, w1 @ rest, ?c0[1 := Some ds], 0)
             (Some (0 + length w0 + length ds + length w1, rest, ?c0[1 := Some ds], 0))"
    by (rule first_free [OF _ _ first_plus [OF sp [OF w1(2)] _ w1(1)] ]) (simp, simp, rule disjI2, rule hd_rest)
  have c: "counted False N (Some N)"
    using N by (simp add: counted_def stackLimit_def)
  have "matcher False (Repeat N (Some N) (Chars AnyChar))
          (0 + length w0 + length ds + length w1, rest, ?c0[1 := Some ds], 0) = [None]"
    by (rule loop_overflow [OF _ _ c]) (use N rest(3) in simp_all)
  then have 4: "firstWay (Group 2 (Repeat N (Some N) (Chars AnyChar)))
             (0 + length w0 + length ds + length w1, rest, ?c0[1 := Some ds], 0) None"
    by (intro way_Group_None) (simp add: firstWay_def)
  show ?thesis
    unfolding psAst_def
    by (intro way_Seq [OF 0] way_Seq [OF 1] way_Seq [OF 2] way_Seq [OF 3] way_Seq_None 4)
qed

lemma captures_overflow:
  assumes widths: "0 < u" "u \<le> 2 ^ 53" "0 < c" "c \<le> 2 ^ 53"
    and u: "int stackLimit < u - 1"
    and w0: "list_all isSpace w0"
    and ds: "ds \<noteq> []" "list_all isDecimalDigit ds"
    and w1: "w1 \<noteq> []" "list_all isSpace w1"
    and rest: "rest \<noteq> []" "\<not> isSpace (hd rest)" "stackLimit \<le> run AnyChar rest"
  shows "psCaptures (w0 @ ds @ w1 @ rest) u c = Inl RangeError"
proof -
  let ?ast = "psAst (Repeat (nat (u - 1)) (Some (nat (u - 1))) (Chars AnyChar))
                    (Repeat (nat (c - 1)) (Some (nat (c - 1))) (Chars AnyChar))"
  have N: "stackLimit < nat (u - 1)" using u by linarith
  have g: "replicate (Suc (length (groups ?ast))) None = [None, None, None, None, None]"
    by (simp add: psAst_def)
  have "RegExp_exec ?ast (w0 @ ds @ w1 @ rest) = Inl RangeError"
    by (rule exec_overflow) (simp only: g, rule way_psAst_overflow [OF w0 ds w1 rest N])
  then show ?thesis
    by (simp add: psCaptures_def RegExp_psEntry_source [OF widths])
qed

lemma groups_fixed: "groups (Repeat n (Some n) (Chars cs)) = []"
  by simp

lemma tame_seqs: "\<forall>r \<in> set rs. tame r \<Longrightarrow> tame (seqs rs)"
  by (induction rs rule: seqs.induct) simp_all

lemma tame_absorb_text:
  assumes "\<forall>r \<in> set cur. tame r" "q \<longrightarrow> (\<exists>cs cur'. cur = Chars cs # cur')" "plusOK q N"
  shows "\<forall>r \<in> set (absorb cur (map tok N @ [TAtom c])). tame r"
  using assms
proof (induction N arbitrary: cur q)
  case Nil
  then show ?case by simp
next
  case (Cons d N)
  show ?case
  proof (cases "d = 0x2B")
    case True
    with Cons(3,4) obtain cs cur' where cur: "cur = Chars cs # cur'" and p: "plusOK False N"
      by auto
    have "\<forall>r \<in> set (absorb (Repeat 1 None (Chars cs) # cur') (map tok N @ [TAtom c])). tame r"
      using Cons(2) p by (intro Cons(1) [of _ False]) (auto simp: cur)
    moreover have "tok d = TQuant 1 None" using True by (simp add: tok_def)
    ultimately show ?thesis by (simp add: cur)
  next
    case False
    then have "\<exists>cs. tok d = TAtom cs" by (simp add: tok_def)
    then obtain cs where t: "tok d = TAtom cs" by blast
    have "\<forall>r \<in> set (absorb (Chars cs # cur) (map tok N @ [TAtom c])). tame r"
      using Cons(2,4) False by (intro Cons(1) [of _ True]) auto
    then show ?thesis by (simp add: t)
  qed
qed

lemma tame_widthBody:
  assumes "numText N"
  shows "tame (widthBody N)"
proof (cases "N \<noteq> [] \<and> list_all isDecimalDigit N")
  case True
  then show ?thesis by (simp add: widthBody_def braceToks_def)
next
  case False
  have "\<forall>r \<in> set (absorb [Chars (Literal 0x7B), Chars AnyChar] (map tok N @ [TAtom (Literal 0x7D)])). tame r"
    using assms by (intro tame_absorb_text [of _ True]) (auto simp: numText_def)
  then show ?thesis
    using False by (auto simp: widthBody_def braceToks_def intro!: tame_seqs)
qed

lemma tame_psAst: "tame b2 \<Longrightarrow> tame b3 \<Longrightarrow> tame (psAst b2 b3)"
  by (simp add: psAst_def)

lemma loopBound_psAst: "loopBound (psAst b2 b3) = loopBound b2 + loopBound b3"
  by (simp add: psAst_def)

lemma captures_with_ast:
  assumes re: "RegExp (psEntry_source u c) = Inr (psAst b2 b3)"
    and b2: "consumes b2 P2" "groups b2 = []"
    and b3: "consumes b3 P3" "groups b3 = []"
  shows "psCaptures line u c = Inl RangeError \<and> RegExp_exec (psAst b2 b3) line = Inl RangeError \<or>
    psCaptures line u c = Inr None \<and> RegExp_exec (psAst b2 b3) line = Inr None \<or>
    (\<exists>w0 ds w1 f1 w2 f2 w3 f3.
       line = w0 @ ds @ w1 @ f1 @ w2 @ f2 @ w3 @ f3 \<and>
       list_all isSpace w0 \<and>
       ds \<noteq> [] \<and> list_all isDecimalDigit ds \<and>
       w1 \<noteq> [] \<and> list_all isSpace w1 \<and> P2 f1 \<and>
       w2 \<noteq> [] \<and> list_all isSpace w2 \<and> P3 f2 \<and>
       w3 \<noteq> [] \<and> list_all isSpace w3 \<and>
       list_all (\<lambda>c. \<not> isLineTerminator c) f3 \<and>
       RegExp_exec (psAst b2 b3) line = Inr (Some [Some line, Some ds, Some f1, Some f2, Some f3]) \<and>
       psCaptures line u c = Inr (Some (ds, trim f1, trim f2, trim f3)))"
proof (cases "RegExp_exec (psAst b2 b3) line = Inl RangeError")
  case True
  then show ?thesis by (simp add: psCaptures_def re)
next
  case False
  with RegExp_exec_follows [of "psAst b2 b3" line]
  have ok: "RegExp_exec (psAst b2 b3) line = Inr (ecma_exec (psAst b2 b3) line)" by simp
  show ?thesis
  proof (cases "ecma_matcher (psAst b2 b3) (0, line, [None, None, None, None, None])")
    case Nil
    then have "ecma_exec (psAst b2 b3) line = None"
      by (simp add: exec_psAst [OF b2(2) b3(2)])
    then show ?thesis by (simp add: psCaptures_def re ok)
  next
    case (Cons st sts)
    then have "st \<in> set (ecma_matcher (psAst b2 b3) (0, line, [None, None, None, None, None]))" by simp
    from match_psAst [OF b2(1) b3(1) this] obtain w0 ds w1 f1 w2 f2 w3 f3 where
      d: "line = w0 @ ds @ w1 @ f1 @ w2 @ f2 @ w3 @ f3"
         "st = (length line, [], [None, Some ds, Some f1, Some f2, Some f3])"
         "list_all isSpace w0" "ds \<noteq> []" "list_all isDecimalDigit ds"
         "w1 \<noteq> []" "list_all isSpace w1" "P2 f1"
         "w2 \<noteq> []" "list_all isSpace w2" "P3 f2"
         "w3 \<noteq> []" "list_all isSpace w3" "list_all (\<lambda>c. \<not> isLineTerminator c) f3"
      by blast
    have ex: "RegExp_exec (psAst b2 b3) line = Inr (Some [Some line, Some ds, Some f1, Some f2, Some f3])"
      by (simp add: ok exec_psAst [OF b2(2) b3(2)] Cons d(2))
    have "psCaptures line u c = Inr (Some (ds, trim f1, trim f2, trim f3))"
      by (simp add: psCaptures_def re ex trim_method_def trim_digits [OF d(4,5)])
    with d ex show ?thesis by blast
  qed
qed

lemma captures_any:
  "psCaptures line u c = Inl RangeError \<and> stackLimit \<le> length line \<and>
     RegExp_exec (psAst (widthBody (ToString (toNumber (u - 1))))
                        (widthBody (ToString (toNumber (c - 1))))) line = Inl RangeError
   \<or> psCaptures line u c = Inr None \<and>
     RegExp_exec (psAst (widthBody (ToString (toNumber (u - 1))))
                        (widthBody (ToString (toNumber (c - 1))))) line = Inr None
   \<or> (\<exists>ds f1 f2 f3.
       ds \<noteq> [] \<and> list_all isDecimalDigit ds \<and>
       RegExp_exec (psAst (widthBody (ToString (toNumber (u - 1))))
                          (widthBody (ToString (toNumber (c - 1))))) line
         = Inr (Some [Some line, Some ds, Some f1, Some f2, Some f3]) \<and>
       psCaptures line u c = Inr (Some (ds, trim f1, trim f2, trim f3)))"
proof -
  let ?b2 = "widthBody (ToString (toNumber (u - 1)))"
  let ?b3 = "widthBody (ToString (toNumber (c - 1)))"
  have t: "tame (psAst ?b2 ?b3)"
    by (intro tame_psAst tame_widthBody ToString_numText)
  have l: "stackLimit \<le> length line" if "RegExp_exec (psAst ?b2 ?b3) line = Inl RangeError"
  proof (rule ccontr)
    assume "\<not> stackLimit \<le> length line"
    then have "RegExp_exec (psAst ?b2 ?b3) line = Inr (ecma_exec (psAst ?b2 ?b3) line)"
      by (intro RegExp_exec_ok [OF t]) simp
    with that show False by simp
  qed
  have "psCaptures line u c = Inl RangeError \<and> RegExp_exec (psAst ?b2 ?b3) line = Inl RangeError \<or>
    psCaptures line u c = Inr None \<and> RegExp_exec (psAst ?b2 ?b3) line = Inr None \<or>
    (\<exists>w0 ds w1 f1 w2 f2 w3 f3.
       line = w0 @ ds @ w1 @ f1 @ w2 @ f2 @ w3 @ f3 \<and>
       list_all isSpace w0 \<and>
       ds \<noteq> [] \<and> list_all isDecimalDigit ds \<and>
       w1 \<noteq> [] \<and> list_all isSpace w1 \<and> True \<and>
       w2 \<noteq> [] \<and> list_all isSpace w2 \<and> True \<and>
       w3 \<noteq> [] \<and> list_all isSpace w3 \<and>
       list_all (\<lambda>c. \<not> isLineTerminator c) f3 \<and>
       RegExp_exec (psAst ?b2 ?b3) line = Inr (Some [Some line, Some ds, Some f1, Some f2, Some f3]) \<and>
       psCaptures line u c = Inr (Some (ds, trim f1, trim f2, trim f3)))"
    by (rule captures_with_ast [OF RegExp_psEntry_any]) (simp_all add: consumes_groupfree groups_widthBody)
  then show ?thesis using l by blast
qed

lemma captures_safe:
  assumes "0 < u" "u \<le> 2 ^ 53" "0 < c" "c \<le> 2 ^ 53"
  shows "psCaptures line u c = Inl RangeError \<and> stackLimit \<le> length line \<and>
      stackLimit < nat (u - 1) + nat (c - 1) \<or>
    psCaptures line u c = Inr None \<or>
    (\<exists>w0 ds w1 f1 w2 f2 w3 f3.
       line = w0 @ ds @ w1 @ f1 @ w2 @ f2 @ w3 @ f3 \<and>
       list_all isSpace w0 \<and>
       ds \<noteq> [] \<and> list_all isDecimalDigit ds \<and>
       w1 \<noteq> [] \<and> list_all isSpace w1 \<and>
       (length f1 = nat (u - 1) \<and> list_all (charset_mem AnyChar) f1) \<and>
       w2 \<noteq> [] \<and> list_all isSpace w2 \<and>
       (length f2 = nat (c - 1) \<and> list_all (charset_mem AnyChar) f2) \<and>
       w3 \<noteq> [] \<and> list_all isSpace w3 \<and>
       list_all (\<lambda>c. \<not> isLineTerminator c) f3 \<and>
       RegExp_exec (psAst (Repeat (nat (u - 1)) (Some (nat (u - 1))) (Chars AnyChar))
                   (Repeat (nat (c - 1)) (Some (nat (c - 1))) (Chars AnyChar))) line
         = Inr (Some [Some line, Some ds, Some f1, Some f2, Some f3]) \<and>
       psCaptures line u c = Inr (Some (ds, trim f1, trim f2, trim f3)))"
proof -
  let ?ast = "psAst (Repeat (nat (u - 1)) (Some (nat (u - 1))) (Chars AnyChar))
                    (Repeat (nat (c - 1)) (Some (nat (c - 1))) (Chars AnyChar))"
  have t: "tame ?ast" by (simp add: psAst_def)
  have b: "loopBound ?ast = nat (u - 1) + nat (c - 1)" by (simp add: psAst_def)
  have l: "stackLimit \<le> length line \<and> stackLimit < nat (u - 1) + nat (c - 1)"
    if "RegExp_exec ?ast line = Inl RangeError"
  proof (rule ccontr)
    assume "\<not> (stackLimit \<le> length line \<and> stackLimit < nat (u - 1) + nat (c - 1))"
    then have "RegExp_exec ?ast line = Inr (ecma_exec ?ast line)"
      by (intro RegExp_exec_ok [OF t]) (auto simp: b)
    with that show False by simp
  qed
  show ?thesis
    using captures_with_ast [OF RegExp_psEntry_source [OF assms] consumes_fixed groups_fixed
        consumes_fixed groups_fixed, of line] l
    by blast
qed

section \<open>The claims\<close>

subsection \<open>Evaluation of the pattern at given widths\<close>

lemmas eval_defs = RegExp_exec_ok stackLimit_def ecma_exec_def ecma_exec_from.simps js_def isSpace_def isWhiteSpace_def
  isLineTerminator_def isDecimalDigit_def trim_method_def trim_def

lemma RegExp_20_50:
  "RegExp (psEntry_source 20 50) =
     Inr (psAst (Repeat 19 (Some 19) (Chars AnyChar)) (Repeat 49 (Some 49) (Chars AnyChar)))"
  using RegExp_psEntry_source [of 20 50] by simp

lemma Number_1: "Number (js ''1'') = Inr (Finite 1)"
  by (simp add: Number_def js_def isDecimalDigit_def digitsValue_def toNumber_def roundToDouble_def)

lemma parseLineFromPs_None:
  "parseLineFromPs line u c = Inr None \<longleftrightarrow> psCaptures line u c = Inr None"
  by (auto simp: parseLineFromPs_def split: sum.splits option.splits)

lemma sample_captures:
  "psCaptures (js ''    1 root                 systemd                                            /sbin/init'') 20 50
     = Inr (Some (js ''1'', js ''root'', js ''systemd'', js ''/sbin/init''))"
  unfolding psCaptures_def RegExp_20_50
  by (simp add: eval_defs psAst_def)

lemma sample_item:
  "parseLineFromPs (js ''    1 root                 systemd                                            /sbin/init'') 20 50
     = Inr (Some \<lparr> pid = Finite 1, label = js ''root:systemd'', description = js ''1'',
                    detail = js ''/sbin/init'' \<rparr>)"
  unfolding parseLineFromPs_def sample_captures by (simp add: Number_1) (simp add: js_def)

subsection \<open>Lines that exhaust the stack\<close>

text \<open>
  A line made of \<open>1\<close>, a space and at least \<open>stackLimit\<close> times \<open>x\<close>, whatever
  follows, exhausts the stack when the width for the username is larger than the limit.
\<close>

lemma space_facts: "isSpace 0x20" "\<not> isLineTerminator 0x20"
  by (simp_all add: isSpace_def isWhiteSpace_def isLineTerminator_def)

lemma long_line_overflow:
  assumes "0 < u" "u \<le> 2 ^ 53" "0 < c" "c \<le> 2 ^ 53"
    and "int stackLimit < u - 1" "stackLimit \<le> n"
  shows "psCaptures (js ''1 '' @ replicate n 0x78 @ tail) u c = Inl RangeError"
proof -
  have line: "js ''1 '' @ replicate n 0x78 @ tail = [] @ js ''1'' @ js '' '' @ (replicate n 0x78 @ tail)"
    by (simp add: js_def)
  have n: "0 < n" using assms(6) by (simp add: stackLimit_def)
  have "list_all (charset_mem AnyChar) (replicate n (0x78 :: code_unit))"
    by (simp add: list_all_iff isLineTerminator_def)
  then have "length (replicate n (0x78 :: code_unit)) \<le> run AnyChar (replicate n 0x78 @ tail)"
    by (rule run_prefix)
  then have r: "stackLimit \<le> run AnyChar (replicate n 0x78 @ tail)"
    using assms(6) by simp
  have ne: "replicate n (0x78 :: code_unit) @ tail \<noteq> []" using n by simp
  have h: "\<not> isSpace (hd (replicate n (0x78 :: code_unit) @ tail))"
    using n by (cases n) (simp_all add: isSpace_def isWhiteSpace_def isLineTerminator_def)
  have d: "js ''1'' \<noteq> []" "list_all isDecimalDigit (js ''1'')"
    by (simp_all add: js_def isDecimalDigit_def)
  have w: "list_all isSpace ([] :: jsstring)" "js '' '' \<noteq> []" "list_all isSpace (js '' '')"
    by (simp_all add: js_def space_facts)
  show ?thesis
    unfolding line
    by (rule captures_overflow [OF assms(1-5) w(1) d w(2,3) ne h r])
qed

lemma throws_RangeError:
  "psCaptures line u c = Inl RangeError \<Longrightarrow> parseLineFromPs line u c = Inl RangeError"
  by (simp add: parseLineFromPs_def)

subsection \<open>C4: the sample line\<close>

text \<open>
  Claim C4. With the widths 20 and 50, \<open>parseLineFromPs\<close> on the first process line of
  the sample output quoted in the source has the pid text \<open>1\<close>, the username \<open>root\<close>,
  the executable \<open>systemd\<close> and the command line \<open>/sbin/init\<close>, and returns the item
  with pid 1, label \<open>root:systemd\<close>, description \<open>1\<close> and detail \<open>/sbin/init\<close>.
\<close>

theorem parseLineFromPs_sample:
  "psCaptures (js ''    1 root                 systemd                                            /sbin/init'') 20 50
     = Inr (Some (js ''1'', js ''root'', js ''systemd'', js ''/sbin/init'')) \<and>
   parseLineFromPs (js ''    1 root                 systemd                                            /sbin/init'') 20 50
     = Inr (Some \<lparr> pid = Finite 1, label = js ''root:systemd'', description = js ''1'',
                    detail = js ''/sbin/init'' \<rparr>)"
  using sample_captures sample_item by simp

subsection \<open>C5: lines shorter than the minimum width\<close>

text \<open>
  Claim C5, as amended. For widths from 1 to \<open>2 ^ 53\<close> (the integers that
  \<open>width - 1\<close> and its printing as a repetition count treat exactly), every line of
  at most \<open>2 ^ 20\<close> code units (too short to exhaust the stack of the engine) that
  is shorter than \<open>1 + 1 + (usernameWidth - 1) + 1 + (commandWidth - 1) + 1\<close> code
  units makes \<open>parseLineFromPs\<close> return \<open>undefined\<close>.
\<close>

theorem short_line_no_match:
  assumes "0 < u" "u \<le> 2 ^ 53" "0 < c" "c \<le> 2 ^ 53"
    and "length line \<le> 1048576"
    and "int (length line) < 1 + 1 + (u - 1) + 1 + (c - 1) + 1"
  shows "parseLineFromPs line u c = Inr None"
proof (rule ccontr)
  assume "parseLineFromPs line u c \<noteq> Inr None"
  then have "psCaptures line u c \<noteq> Inr None" by (simp add: parseLineFromPs_None)
  moreover have "\<not> stackLimit \<le> length line" using assms(5) by (simp add: stackLimit_def)
  ultimately obtain w0 ds w1 f1 w2 f2 w3 f3 where
    l: "line = w0 @ ds @ w1 @ f1 @ w2 @ f2 @ w3 @ f3" and
    n: "ds \<noteq> []" "w1 \<noteq> []" "w2 \<noteq> []" "w3 \<noteq> []" and
    f: "length f1 = nat (u - 1)" "length f2 = nat (c - 1)"
    using captures_safe [OF assms(1-4), of line] by blast
  have "1 \<le> length ds" "1 \<le> length w1" "1 \<le> length w2" "1 \<le> length w3"
    using n by (simp_all add: Suc_le_eq)
  then have "1 + 1 + nat (u - 1) + 1 + nat (c - 1) + 1 \<le> length line"
    unfolding l using f by simp
  then show False using assms by linarith
qed

theorem short_line_no_match_witness:
  "(0::int) < 20 \<and> (20::int) \<le> 2 ^ 53 \<and> (0::int) < 50 \<and> (50::int) \<le> 2 ^ 53 \<and>
   length (js ''    1 root                 systemd'') \<le> 1048576 \<and>
   int (length (js ''    1 root                 systemd'')) < 1 + 1 + (20 - 1) + 1 + (50 - 1) + 1 \<and>
   parseLineFromPs (js ''    1 root                 systemd'') 20 50 = Inr None"
  using short_line_no_match [of 20 50 "js ''    1 root                 systemd''"]
  by (simp add: js_def)

lemma roundToDouble_1e21_minus_1: "roundToDouble 999999999999999999999 = Some 1000000000000000000000"
proof -
  have "bitLength 999999999999999999999 = 70" by simp
  then show ?thesis by (simp add: roundToDouble_def Let_def del: bitLength.simps)
qed

lemma roundToDouble_1e21: "roundToDouble 1000000000000000000000 = Some 1000000000000000000000"
proof -
  have "bitLength 1000000000000000000000 = 70" by simp
  then show ?thesis by (simp add: roundToDouble_def Let_def del: bitLength.simps)
qed

lemma decimal_1e21: "decimal 1000000000000000000000 = js ''1000000000000000000000''"
  by (simp add: decimal.simps digitChar_def js_def)

lemma shortest_1e21: "shortest 1000000000000000000000 = 1000000000000000000000"
proof -
  have u: "[1..<22] = 1 # [2..<22]" by (simp add: upt_conv_Cons)
  have ld: "length (decimal 1000000000000000000000) = 22"
    by (simp add: decimal_1e21 js_def)
  have c: "candidates 1000000000000000000000 21 = [1000000000000000000000, 2000000000000000000000]"
    by (simp add: candidates_def Let_def)
  show ?thesis
    unfolding shortest_def ld u
    by (simp add: c roundToDouble_1e21 del: upt.simps)
qed

lemma ToString_1e21_minus_1: "ToString (toNumber (1000000000000000000000 - 1)) = js ''1e+21''"
proof -
  have "toNumber 999999999999999999999 = Finite 1000000000000000000000"
    using roundToDouble_1e21_minus_1 by (simp add: toNumber_def)
  moreover have "natToString 1000000000000000000000 = js ''1e+21''"
    unfolding natToString_def shortest_1e21 Let_def decimal_1e21
    by (simp add: js_def stripZeros_def decimal.simps digitChar_def)
  ultimately show ?thesis by simp
qed

lemma ToString_0: "ToString (toNumber (1 - 1)) = js ''0''"
  by (simp add: toNumber_def roundToDouble_def natToString_def shortest_def decimal.simps
      digitChar_def js_def)

lemma RegExp_1e21_1:
  "RegExp (psEntry_source 1000000000000000000000 1) =
     Inr (psAst
       (Seq (Chars AnyChar) (Seq (Chars (Literal 0x7B)) (Seq (Chars (Literal 0x31))
         (Seq (Repeat 1 None (Chars (Literal 0x65))) (Seq (Chars (Literal 0x32))
           (Seq (Chars (Literal 0x31)) (Chars (Literal 0x7D))))))))
       (Repeat 0 (Some 0) (Chars AnyChar)))"
  unfolding psEntry_source_def ToString_1e21_minus_1 ToString_0
  by (simp add: RegExp_def js_def lex_brace_def not_lazy_def cons_tok_def isDecimalDigit_def
      digitsValue_def psAst_def)

text \<open>
  The claim as stated, for every pair of positive widths, fails in two ways. At the
  width \<open>1e21\<close>, \<open>1e21 - 1\<close> is \<open>1e21\<close> again, the template prints it as
  \<open>1e+21\<close>, and \<open>.{1e+21}\<close> is no repetition but any character followed by the
  characters \<open>{1\<close>, one or more \<open>e\<close>, and \<open>21}\<close>: a line of 11 code units then
  matches. And at the widths 6000000 and 1 the line made of \<open>1\<close>, a space and
  5700000 times \<open>x\<close> is shorter than the minimum, but the loop for the username
  exhausts the stack of the engine before the line ends, and \<open>exec\<close> throws.
\<close>

theorem short_line_counterexample:
  "(0::int) < 1000000000000000000000 \<and> (0::int) < 1 \<and>
   int (length (js ''1 x{1e21}  '')) < 1 + 1 + (1000000000000000000000 - 1) + 1 + (1 - 1) + 1 \<and>
   parseLineFromPs (js ''1 x{1e21}  '') 1000000000000000000000 1
     = Inr (Some \<lparr> pid = Finite 1, label = js ''x{1e21}:'', description = js ''1'',
                    detail = js '''' \<rparr>) \<and>
   (0::int) < 6000000 \<and>
   int (length (js ''1 '' @ replicate 5700000 0x78)) < 1 + 1 + (6000000 - 1) + 1 + (1 - 1) + 1 \<and>
   parseLineFromPs (js ''1 '' @ replicate 5700000 0x78) 6000000 1 = Inl RangeError"
proof -
  have l: "length (js ''1 '' @ replicate 5700000 (0x78 :: code_unit)) = 5700002"
    by (simp add: js_def)
  have s: "int (length (js ''1 '' @ replicate 5700000 (0x78 :: code_unit)))
             < 1 + 1 + (6000000 - 1) + 1 + (1 - 1) + 1"
    by (simp only: l)
  have "psCaptures (js ''1 '' @ replicate 5700000 0x78 @ []) 6000000 1 = Inl RangeError"
    by (rule long_line_overflow) (simp_all add: stackLimit_def)
  then have o: "parseLineFromPs (js ''1 '' @ replicate 5700000 0x78) 6000000 1 = Inl RangeError"
    unfolding append_Nil2 by (rule throws_RangeError)
  have c: "psCaptures (js ''1 x{1e21}  '') 1000000000000000000000 1
      = Inr (Some (js ''1'', js ''x{1e21}'', js '''', js ''''))"
    unfolding psCaptures_def RegExp_1e21_1
    by (simp add: eval_defs psAst_def)
  have "parseLineFromPs (js ''1 x{1e21}  '') 1000000000000000000000 1
     = Inr (Some \<lparr> pid = Finite 1, label = js ''x{1e21}:'', description = js ''1'',
                    detail = js '''' \<rparr>)"
    unfolding parseLineFromPs_def c by (simp add: Number_1) (simp add: js_def)
  moreover have "int (length (js ''1 x{1e21}  '')) < 1 + 1 + (1000000000000000000000 - 1) + 1 + (1 - 1) + 1"
    by (simp add: js_def)
  ultimately show ?thesis using s o by simp
qed

subsection \<open>C9: the captured columns are bounded and trimmed\<close>

lemma length_trim_le: "length (trim s) \<le> length s"
proof -
  have "length (dropWhile isSpace (rev (dropWhile isSpace s))) \<le> length (rev (dropWhile isSpace s))"
    by (rule length_dropWhile_le)
  also have "\<dots> \<le> length s" by (simp add: length_dropWhile_le)
  finally show ?thesis by (simp add: trim_def)
qed

lemma last_dropWhile: "dropWhile P xs \<noteq> [] \<Longrightarrow> last (dropWhile P xs) = last xs"
  by (induction xs) (auto split: if_splits)

lemma trim_noSurroundingSpace: "noSurroundingSpace (trim s)"
proof (cases "trim s = []")
  case True
  then show ?thesis by (simp add: noSurroundingSpace_def)
next
  case False
  let ?t = "dropWhile isSpace s"
  let ?r = "dropWhile isSpace (rev ?t)"
  have r: "?r \<noteq> []" using False by (simp add: trim_def)
  then have t: "?t \<noteq> []" by (cases "?t = []") simp_all
  have "\<not> isSpace (hd ?r)" using r by (rule hd_dropWhile)
  then have l: "\<not> isSpace (last (trim s))" using r by (simp add: trim_def last_rev)
  have "last ?r = last (rev ?t)" using r by (rule last_dropWhile)
  also have "\<dots> = hd ?t" using t by (simp add: last_rev)
  finally have "hd (trim s) = hd ?t" using r by (simp add: trim_def hd_rev)
  moreover have "\<not> isSpace (hd ?t)" using t by (rule hd_dropWhile)
  ultimately show ?thesis using l by (simp add: noSurroundingSpace_def)
qed

text \<open>
  Claim C9, as amended. For widths from 1 to \<open>2 ^ 53\<close>, every item that
  \<open>parseLineFromPs\<close> returns has the label \<open>username:executable\<close> where \<open>username\<close>
  has at most \<open>usernameWidth - 1\<close> code units and \<open>executable\<close> at most
  \<open>commandWidth - 1\<close>, and the username, the executable and the detail (the command
  line) have no leading and no trailing white space.
\<close>

theorem captures_bounded_and_trimmed:
  assumes "0 < u" "u \<le> 2 ^ 53" "0 < c" "c \<le> 2 ^ 53"
    and "parseLineFromPs line u c = Inr (Some item)"
  shows "\<exists>pid_text username executable.
           psCaptures line u c = Inr (Some (pid_text, username, executable, detail item)) \<and>
           label item = username @ js '':'' @ executable \<and>
           int (length username) \<le> u - 1 \<and>
           int (length executable) \<le> c - 1 \<and>
           noSurroundingSpace username \<and>
           noSurroundingSpace executable \<and>
           noSurroundingSpace (detail item)"
proof -
  from assms(5) have "psCaptures line u c \<noteq> Inr None" "psCaptures line u c \<noteq> Inl RangeError"
    by (auto simp: parseLineFromPs_def)
  with captures_safe [OF assms(1-4), of line]
  obtain ds f1 f2 f3 where
    f: "length f1 = nat (u - 1)" "length f2 = nat (c - 1)" and
    c: "psCaptures line u c = Inr (Some (ds, trim f1, trim f2, trim f3))"
    by blast
  from assms(5) have i: "label item = trim f1 @ js '':'' @ trim f2" "detail item = trim f3"
    unfolding parseLineFromPs_def c by (auto split: sum.splits)
  have "length (trim f1) \<le> nat (u - 1)" "length (trim f2) \<le> nat (c - 1)"
    using length_trim_le [of f1] length_trim_le [of f2] f by simp_all
  then have "int (length (trim f1)) \<le> u - 1" "int (length (trim f2)) \<le> c - 1"
    using assms(1,3) by linarith+
  then show ?thesis
    using c i trim_noSurroundingSpace by auto
qed

theorem captures_bounded_and_trimmed_witness:
  "(0::int) < 20 \<and> (20::int) \<le> 2 ^ 53 \<and> (0::int) < 50 \<and> (50::int) \<le> 2 ^ 53 \<and>
   parseLineFromPs (js ''    1 root                 systemd                                            /sbin/init'') 20 50
     = Inr (Some \<lparr> pid = Finite 1, label = js ''root:systemd'', description = js ''1'',
                    detail = js ''/sbin/init'' \<rparr>) \<and>
   (\<exists>pid_text username executable.
      psCaptures (js ''    1 root                 systemd                                            /sbin/init'') 20 50
        = Inr (Some (pid_text, username, executable, js ''/sbin/init'')) \<and>
      js ''root:systemd'' = username @ js '':'' @ executable \<and>
      int (length username) \<le> 20 - 1 \<and>
      int (length executable) \<le> 50 - 1 \<and>
      noSurroundingSpace username \<and>
      noSurroundingSpace executable \<and>
      noSurroundingSpace (js ''/sbin/init''))"
proof -
  have p: "parseLineFromPs (js ''    1 root                 systemd                                            /sbin/init'') 20 50
     = Inr (Some \<lparr> pid = Finite 1, label = js ''root:systemd'', description = js ''1'',
                    detail = js ''/sbin/init'' \<rparr>)"
    by (rule sample_item)
  from captures_bounded_and_trimmed [OF _ _ _ _ p] show ?thesis
    using p by simp
qed

text \<open>
  Without the restriction to positive widths the bound fails: the width 0 is printed
  as \<open>.{-1}\<close>, which is any character followed by the four characters \<open>{-1}\<close>, and
  the username captured has five code units.
\<close>

lemma ToString_minus_1: "ToString (toNumber (0 - 1)) = js ''-1''"
  by (simp add: toNumber_def roundToDouble_def natToString_def shortest_def decimal.simps
      digitChar_def js_def)

lemma RegExp_0_1:
  "RegExp (psEntry_source 0 1) =
     Inr (psAst
       (Seq (Chars AnyChar) (Seq (Chars (Literal 0x7B)) (Seq (Chars (Literal 0x2D))
         (Seq (Chars (Literal 0x31)) (Chars (Literal 0x7D))))))
       (Repeat 0 (Some 0) (Chars AnyChar)))"
  unfolding psEntry_source_def ToString_minus_1 ToString_0
  by (simp add: RegExp_def js_def lex_brace_def not_lazy_def cons_tok_def isDecimalDigit_def
      digitsValue_def psAst_def)

theorem captures_bounded_counterexample:
  "parseLineFromPs (js ''1 a{-1}  x'') 0 1
     = Inr (Some \<lparr> pid = Finite 1, label = js ''a{-1}:'', description = js ''1'',
                    detail = js ''x'' \<rparr>) \<and>
   psCaptures (js ''1 a{-1}  x'') 0 1 = Inr (Some (js ''1'', js ''a{-1}'', js '''', js ''x'')) \<and>
   \<not> int (length (js ''a{-1}'')) \<le> 0 - 1"
proof -
  have c: "psCaptures (js ''1 a{-1}  x'') 0 1 = Inr (Some (js ''1'', js ''a{-1}'', js '''', js ''x''))"
    unfolding psCaptures_def RegExp_0_1
    by (simp add: eval_defs psAst_def)
  have "parseLineFromPs (js ''1 a{-1}  x'') 0 1
     = Inr (Some \<lparr> pid = Finite 1, label = js ''a{-1}:'', description = js ''1'',
                    detail = js ''x'' \<rparr>)"
    unfolding parseLineFromPs_def c by (simp add: Number_1) (simp add: js_def)
  then show ?thesis using c by (simp add: js_def)
qed

subsection \<open>The loop over the lines\<close>

lemma parseLineFromPs_Inr:
  assumes "0 < u" "u \<le> 2 ^ 53" "0 < c" "c \<le> 2 ^ 53"
    and "nat (u - 1) + nat (c - 1) \<le> stackLimit"
  shows "parseLineFromPs line u c = Inr (parsedItem u c line)"
proof -
  from captures_safe [OF assms(1-4), of line] assms(5)
  have "psCaptures line u c = Inr None \<or>
    (\<exists>ds f1 f2 f3. ds \<noteq> [] \<and> list_all isDecimalDigit ds \<and>
       psCaptures line u c = Inr (Some (ds, trim f1, trim f2, trim f3)))"
    by (elim disjE) auto
  then show ?thesis
  proof
    assume "psCaptures line u c = Inr None"
    then show ?thesis by (simp add: parsedItem_def parseLineFromPs_def)
  next
    assume "\<exists>ds f1 f2 f3. ds \<noteq> [] \<and> list_all isDecimalDigit ds \<and>
       psCaptures line u c = Inr (Some (ds, trim f1, trim f2, trim f3))"
    then obtain ds f1 f2 f3 where
      d: "ds \<noteq> []" "list_all isDecimalDigit ds" and
      c: "psCaptures line u c = Inr (Some (ds, trim f1, trim f2, trim f3))"
      by blast
    show ?thesis
      unfolding parsedItem_def parseLineFromPs_def c using d by (simp add: Number_def)
  qed
qed
lemma attach_loop_eq:
  assumes "0 < u" "u \<le> 2 ^ 53" "0 < c" "c \<le> 2 ^ 53"
    and "nat (u - 1) + nat (c - 1) \<le> stackLimit"
  shows "attach_loop output u c i acc =
     Inr (acc @ List.map_filter (parsedItem u c) (filter (\<lambda>line. line \<noteq> []) (drop i output)))"
proof (induction "length output - i" arbitrary: i acc)
  case 0
  then show ?case
    by (subst attach_loop.simps) simp
next
  case (Suc n)
  then have i: "i < length output" and n: "n = length output - (i + 1)" by simp_all
  have d: "drop i output = output ! i # drop (i + 1) output"
    using i by (simp add: Cons_nth_drop_Suc)
  show ?case
  proof (cases "output ! i = []")
    case True
    then show ?thesis
      using i Suc(1) [OF n] by (subst attach_loop.simps) (simp add: d)
  next
    case False
    show ?thesis
    proof (cases "parsedItem u c (output ! i)")
      case None
      then show ?thesis
        using i False Suc(1) [OF n] parseLineFromPs_Inr [OF assms, of "output ! i"]
        by (subst attach_loop.simps) (simp add: d)
    next
      case (Some item)
      then show ?thesis
        using i False Suc(1) [OF n] parseLineFromPs_Inr [OF assms, of "output ! i"]
        by (subst attach_loop.simps) (simp add: d)
    qed
  qed
qed

lemma ps_command:
  "js ''ps -ax -o pid,uname:'' @ ToString (toNumber 20) @ js '',comm:'' @ ToString (toNumber 50)
     @ js '',args'' = js ''ps -ax -o pid,uname:20,comm:50,args''"
  by (simp add: toNumber_def roundToDouble_def natToString_def shortest_def decimal.simps
      digitChar_def js_def)

lemma getAttachItems_Resolved:
  assumes "exec (js ''ps -ax -o pid,uname:20,comm:50,args'') = Resolved stdout stderr"
  shows "getAttachItems exec =
     (if stderr \<noteq> [] \<and> \<not> includes_str stderr (js ''screen size is bogus'')
      then Inl (Error (js ''Unable to select process to attach to: '' @ stderr))
      else Inr (listedItems stdout))"
  unfolding getAttachItems_def Let_def ps_command assms listedItems_def
  using attach_loop_eq [of 20 50 "split_str stdout 0xA" 1 "[]"]
  by (simp add: stackLimit_def)

lemma Number_42: "Number (js ''42'') = Inr (Finite 42)"
  by (simp add: Number_def js_def isDecimalDigit_def digitsValue_def toNumber_def roundToDouble_def)

lemma natToString_42: "natToString 42 = js ''42''"
  by (simp add: natToString_def shortest_def decimal.simps digitChar_def js_def)

lemma item_42:
  "parseLineFromPs (js ''   42 root                 systemd                                            /sbin/init'') 20 50
     = Inr (Some \<lparr> pid = Finite 42, label = js ''root:systemd'', description = js ''42'',
                    detail = js ''/sbin/init'' \<rparr>)"
proof -
  have c: "psCaptures (js ''   42 root                 systemd                                            /sbin/init'') 20 50
     = Inr (Some (js ''42'', js ''root'', js ''systemd'', js ''/sbin/init''))"
    unfolding psCaptures_def RegExp_20_50
    by (simp add: eval_defs psAst_def)
  show ?thesis
    unfolding parseLineFromPs_def c by (simp add: Number_42) (simp add: js_def)
qed

lemma no_item_header:
  "parseLineFromPs (js ''bad line'') 20 50 = Inr None"
proof -
  have c: "psCaptures (js ''bad line'') 20 50 = Inr None"
    unfolding psCaptures_def RegExp_20_50
    by (simp add: eval_defs psAst_def)
  show ?thesis
    unfolding parseLineFromPs_def c by simp
qed

lemma split_out42:
  "split_str out42 0xA =
     [js ''    PID USER                 COMMAND                                            COMMAND'',
      js ''   42 root                 systemd                                            /sbin/init'',
      js ''bad line'', js '''']"
  by (simp add: out42_def js_def)

lemma listed_out42:
  "listedItems out42 = [\<lparr> pid = Finite 42, label = js ''root:systemd'', description = js ''42'',
                    detail = js ''/sbin/init'' \<rparr>]"
proof -
  have n: "js ''   42 root                 systemd                                            /sbin/init'' \<noteq> []"
     "js ''bad line'' \<noteq> []" "js '''' = []"
    by (simp_all add: js_def)
  show ?thesis
    unfolding listedItems_def split_out42
    by (simp add: n parsedItem_def item_42 no_item_header)
qed

subsection \<open>C6: the listing keeps the parsed lines in order\<close>

text \<open>
  Claim C6. When the command resolves and its diagnostic output does not make
  \<open>getAttachItems\<close> fail, the result is obtained from the lines of the standard output
  as follows: the first line is dropped whatever it contains, the empty lines are
  dropped, each remaining line is parsed with the widths 20 and 50 of the command
  line, the lines without match are dropped, and the records of the other lines are
  returned in the order of their lines.
\<close>

theorem getAttachItems_lists_parsed_lines:
  assumes "exec (js ''ps -ax -o pid,uname:20,comm:50,args'') = Resolved stdout stderr"
    and "stderr = [] \<or> includes_str stderr (js ''screen size is bogus'')"
  shows "getAttachItems exec =
           Inr (List.map_filter (parsedItem 20 50)
                  (filter (\<lambda>line. line \<noteq> []) (drop 1 (split_str stdout 0xA))))
         \<and> (\<forall>line. parseLineFromPs line 20 50 = Inr (parsedItem 20 50 line))"
  using getAttachItems_Resolved [of exec stdout stderr] assms parseLineFromPs_Inr [of 20 50]
  by (auto simp: listedItems_def stackLimit_def)

theorem getAttachItems_lists_parsed_lines_witness:
  "(\<lambda>cmd. Resolved out42 []) (js ''ps -ax -o pid,uname:20,comm:50,args'') = Resolved out42 [] \<and>
   ([] = [] \<or> includes_str [] (js ''screen size is bogus'')) \<and>
   getAttachItems (\<lambda>cmd. Resolved out42 []) =
     Inr (List.map_filter (parsedItem 20 50)
            (filter (\<lambda>line. line \<noteq> []) (drop 1 (split_str out42 0xA)))) \<and>
   getAttachItems (\<lambda>cmd. Resolved out42 []) =
     Inr [\<lparr> pid = Finite 42, label = js ''root:systemd'', description = js ''42'',
            detail = js ''/sbin/init'' \<rparr>]"
  using getAttachItems_lists_parsed_lines [of "\<lambda>cmd. Resolved out42 []" out42 "[]"]
    listed_out42
  by (simp add: listedItems_def)

subsection \<open>C1: the diagnostic output\<close>

text \<open>
  Claim C1, as amended. When the command resolves, \<open>getAttachItems\<close> succeeds with the
  parsed candidates if the diagnostic output is empty or contains the text
  \<open>screen size is bogus\<close> anywhere, with or without other diagnostic text; for every
  other diagnostic output it fails with the error whose message is
  \<open>Unable to select process to attach to: \<close> followed by the diagnostic output.
\<close>

theorem getAttachItems_stderr_policy:
  assumes "exec (js ''ps -ax -o pid,uname:20,comm:50,args'') = Resolved stdout stderr"
  shows "(stderr = [] \<or> includes_str stderr (js ''screen size is bogus'')
            \<longrightarrow> getAttachItems exec = Inr (listedItems stdout)) \<and>
         (stderr \<noteq> [] \<and> \<not> includes_str stderr (js ''screen size is bogus'')
            \<longrightarrow> getAttachItems exec =
                  Inl (Error (js ''Unable to select process to attach to: '' @ stderr)))"
  using getAttachItems_Resolved [of exec stdout stderr] assms by auto

theorem getAttachItems_stderr_policy_witness:
  "(\<lambda>cmd. Resolved out42 (js ''ps: cannot open /proc'')) (js ''ps -ax -o pid,uname:20,comm:50,args'')
      = Resolved out42 (js ''ps: cannot open /proc'') \<and>
   js ''ps: cannot open /proc'' \<noteq> [] \<and>
   \<not> includes_str (js ''ps: cannot open /proc'') (js ''screen size is bogus'') \<and>
   getAttachItems (\<lambda>cmd. Resolved out42 (js ''ps: cannot open /proc'')) =
     Inl (Error (js ''Unable to select process to attach to: ps: cannot open /proc''))"
  using getAttachItems_stderr_policy [of "\<lambda>cmd. Resolved out42 (js ''ps: cannot open /proc'')"
      out42 "js ''ps: cannot open /proc''"]
  by (simp add: js_def)

text \<open>
  The claim as stated lets only the exact text pass. The test is a substring test:
  a diagnostic output that contains the text together with another message passes too.
\<close>

theorem getAttachItems_stderr_counterexample:
  "js ''screen size is bogus; cannot open /proc'' \<noteq> [] \<and>
   js ''screen size is bogus; cannot open /proc'' \<noteq> js ''screen size is bogus'' \<and>
   getAttachItems (\<lambda>cmd. Resolved out42 (js ''screen size is bogus; cannot open /proc'')) =
     Inr [\<lparr> pid = Finite 42, label = js ''root:systemd'', description = js ''42'',
            detail = js ''/sbin/init'' \<rparr>]"
proof -
  have i: "includes_str (js ''screen size is bogus; cannot open /proc'') (js ''screen size is bogus'')"
    by (simp add: js_def)
  have "getAttachItems (\<lambda>cmd. Resolved out42 (js ''screen size is bogus; cannot open /proc'')) =
     Inr (listedItems out42)"
    using getAttachItems_Resolved [of "\<lambda>cmd. Resolved out42 (js ''screen size is bogus; cannot open /proc'')"
      out42 "js ''screen size is bogus; cannot open /proc''"] i
    by simp
  then show ?thesis by (simp add: listed_out42) (simp add: js_def)
qed

subsection \<open>C8: a dismissed chooser\<close>

text \<open>
  Claim C8. When the listing succeeded and the chooser is dismissed without a choice,
  \<open>chooseProcess\<close> throws the error \<open>Process not selected\<close>, and so does \<open>pickProcess\<close>:
  neither returns a value.
\<close>

theorem dismissed_chooser_fails:
  assumes "getAttachItems exec = Inr items" and "showQuickPick items = None"
  shows "chooseProcess exec showQuickPick = Inl (Error (js ''Process not selected'')) \<and>
         pickProcess exec showQuickPick = Inl (Error (js ''Process not selected''))"
  using assms by (simp add: chooseProcess_def pickProcess_def)

theorem dismissed_chooser_fails_witness:
  "getAttachItems (\<lambda>cmd. Resolved out42 []) =
     Inr [\<lparr> pid = Finite 42, label = js ''root:systemd'', description = js ''42'',
            detail = js ''/sbin/init'' \<rparr>] \<and>
   (\<lambda>items. None)
     [\<lparr> pid = Finite 42, label = js ''root:systemd'', description = js ''42'',
        detail = js ''/sbin/init'' \<rparr>] = (None :: ProcessItem option) \<and>
   chooseProcess (\<lambda>cmd. Resolved out42 []) (\<lambda>items. None)
     = Inl (Error (js ''Process not selected'')) \<and>
   pickProcess (\<lambda>cmd. Resolved out42 []) (\<lambda>items. None)
     = Inl (Error (js ''Process not selected''))"
proof -
  have g: "getAttachItems (\<lambda>cmd. Resolved out42 []) =
     Inr [\<lparr> pid = Finite 42, label = js ''root:systemd'', description = js ''42'',
            detail = js ''/sbin/init'' \<rparr>]"
    using getAttachItems_Resolved [of "\<lambda>cmd. Resolved out42 []" out42 "[]"]
    by (simp add: listed_out42)
  from dismissed_chooser_fails [OF g, of "\<lambda>items. None"] g show ?thesis by simp
qed

subsection \<open>C7: the result of a selection\<close>

text \<open>
  Claim C7. When the listing succeeded and the chooser returns a record,
  \<open>pickProcess\<close> returns the string made of the printed pid of the record, a colon and
  the label of the record; for the record with pid 42 and label \<open>root:systemd\<close> that
  string is \<open>42:root:systemd\<close>.
\<close>

theorem pickProcess_formats_selection:
  assumes "getAttachItems exec = Inr items" and "showQuickPick items = Some p"
  shows "pickProcess exec showQuickPick = Inr (ToString (pid p) @ js '':'' @ label p) \<and>
         (pid p = Finite 42 \<and> label p = js ''root:systemd''
            \<longrightarrow> pickProcess exec showQuickPick = Inr (js ''42:root:systemd''))"
  using assms by (simp add: chooseProcess_def pickProcess_def natToString_42) (simp add: js_def)

theorem pickProcess_formats_selection_witness:
  "getAttachItems (\<lambda>cmd. Resolved out42 []) =
     Inr [\<lparr> pid = Finite 42, label = js ''root:systemd'', description = js ''42'',
            detail = js ''/sbin/init'' \<rparr>] \<and>
   (\<lambda>items. case items of [] \<Rightarrow> None | item # _ \<Rightarrow> Some item)
     [\<lparr> pid = Finite 42, label = js ''root:systemd'', description = js ''42'',
        detail = js ''/sbin/init'' \<rparr>]
     = Some \<lparr> pid = Finite 42, label = js ''root:systemd'', description = js ''42'',
              detail = js ''/sbin/init'' \<rparr> \<and>
   pickProcess (\<lambda>cmd. Resolved out42 [])
     (\<lambda>items. case items of [] \<Rightarrow> None | item # _ \<Rightarrow> Some item) = Inr (js ''42:root:systemd'')"
proof -
  have g: "getAttachItems (\<lambda>cmd. Resolved out42 []) =
     Inr [\<lparr> pid = Finite 42, label = js ''root:systemd'', description = js ''42'',
            detail = js ''/sbin/init'' \<rparr>]"
    using getAttachItems_Resolved [of "\<lambda>cmd. Resolved out42 []" out42 "[]"]
    by (simp add: listed_out42)
  from pickProcess_formats_selection [OF g,
      of "\<lambda>items. case items of [] \<Rightarrow> None | item # _ \<Rightarrow> Some item"
         "\<lparr> pid = Finite 42, label = js ''root:systemd'', description = js ''42'',
            detail = js ''/sbin/init'' \<rparr>"] g
  show ?thesis by (simp add: natToString_42) (simp add: js_def)
qed

subsection \<open>C10: what \<open>parseLineFromPs\<close> returns and throws\<close>

text \<open>
  Claim C10, as amended. For every line and every pair of integer widths, positive or
  not, the pattern that \<open>parseLineFromPs\<close> builds is well formed, so that \<open>new RegExp\<close>
  does not throw. The one thing that \<open>parseLineFromPs\<close> can throw is the \<open>RangeError\<close>
  of \<open>exec\<close> when the stack of the engine is exhausted, and that takes a line of more
  than \<open>2 ^ 20\<close> code units. If \<open>exec\<close> returns \<open>null\<close> the function returns
  \<open>undefined\<close>; and if \<open>exec\<close> returns a match, the match array has five elements,
  none of them \<open>undefined\<close>, and the function returns a record. So on a line of at
  most \<open>2 ^ 20\<close> code units the function returns a record or \<open>undefined\<close> and never
  throws, and it returns a record only on a match with all five elements present.
\<close>

theorem parseLineFromPs_outcomes:
  "\<exists>psEntry. RegExp (psEntry_source u c) = Inr psEntry \<and>
     (case RegExp_exec psEntry line of
        Inl e \<Rightarrow>
          e = RangeError \<and> 1048576 < length line \<and> parseLineFromPs line u c = Inl RangeError
      | Inr None \<Rightarrow> parseLineFromPs line u c = Inr None
      | Inr (Some matches) \<Rightarrow>
          length matches = 5 \<and> None \<notin> set matches \<and>
          (\<exists>item. parseLineFromPs line u c = Inr (Some item)))"
proof -
  let ?ast = "psAst (widthBody (ToString (toNumber (u - 1)))) (widthBody (ToString (toNumber (c - 1))))"
  have r: "RegExp (psEntry_source u c) = Inr ?ast" by (rule RegExp_psEntry_any)
  from captures_any [of line u c]
  have "case RegExp_exec ?ast line of
        Inl e \<Rightarrow>
          e = RangeError \<and> 1048576 < length line \<and> parseLineFromPs line u c = Inl RangeError
      | Inr None \<Rightarrow> parseLineFromPs line u c = Inr None
      | Inr (Some matches) \<Rightarrow>
          length matches = 5 \<and> None \<notin> set matches \<and>
          (\<exists>item. parseLineFromPs line u c = Inr (Some item))"
  proof (elim disjE)
    assume "psCaptures line u c = Inl RangeError \<and> stackLimit \<le> length line \<and>
       RegExp_exec ?ast line = Inl RangeError"
    then show ?thesis by (simp add: parseLineFromPs_def stackLimit_def)
  next
    assume "psCaptures line u c = Inr None \<and> RegExp_exec ?ast line = Inr None"
    then show ?thesis by (simp add: parseLineFromPs_def)
  next
    assume "\<exists>ds f1 f2 f3.
       ds \<noteq> [] \<and> list_all isDecimalDigit ds \<and>
       RegExp_exec ?ast line = Inr (Some [Some line, Some ds, Some f1, Some f2, Some f3]) \<and>
       psCaptures line u c = Inr (Some (ds, trim f1, trim f2, trim f3))"
    then obtain ds f1 f2 f3 where
      d: "ds \<noteq> []" "list_all isDecimalDigit ds" and
      e: "RegExp_exec ?ast line = Inr (Some [Some line, Some ds, Some f1, Some f2, Some f3])" and
      c: "psCaptures line u c = Inr (Some (ds, trim f1, trim f2, trim f3))"
      by blast
    show ?thesis
      unfolding e parseLineFromPs_def c using d by (simp add: Number_def)
  qed
  with r show ?thesis by blast
qed
theorem parseLineFromPs_outcomes_witness:
  "RegExp (psEntry_source 0 1) =
     Inr (psAst
       (Seq (Chars AnyChar) (Seq (Chars (Literal 0x7B)) (Seq (Chars (Literal 0x2D))
         (Seq (Chars (Literal 0x31)) (Chars (Literal 0x7D))))))
       (Repeat 0 (Some 0) (Chars AnyChar))) \<and>
   RegExp_exec (psAst
       (Seq (Chars AnyChar) (Seq (Chars (Literal 0x7B)) (Seq (Chars (Literal 0x2D))
         (Seq (Chars (Literal 0x31)) (Chars (Literal 0x7D))))))
       (Repeat 0 (Some 0) (Chars AnyChar))) (js ''1 a{-1}  x'')
     = Inr (Some [Some (js ''1 a{-1}  x''), Some (js ''1''), Some (js ''a{-1}''), Some (js ''''),
             Some (js ''x'')]) \<and>
   (\<exists>item. parseLineFromPs (js ''1 a{-1}  x'') 0 1 = Inr (Some item))"
proof -
  have e: "RegExp_exec (psAst
       (Seq (Chars AnyChar) (Seq (Chars (Literal 0x7B)) (Seq (Chars (Literal 0x2D))
         (Seq (Chars (Literal 0x31)) (Chars (Literal 0x7D))))))
       (Repeat 0 (Some 0) (Chars AnyChar))) (js ''1 a{-1}  x'')
     = Inr (Some [Some (js ''1 a{-1}  x''), Some (js ''1''), Some (js ''a{-1}''), Some (js ''''),
             Some (js ''x'')])"
    by (simp add: eval_defs psAst_def)
  from parseLineFromPs_outcomes [of 0 1 "js ''1 a{-1}  x''"]
  show ?thesis
    unfolding RegExp_0_1 using e by simp
qed

text \<open>
  The claim as stated, for every line, fails on long lines at large widths: with the
  widths 6000000 and 1, on the line made of \<open>1\<close>, a space, 5999999 times \<open>x\<close> and
  two spaces, which the pattern matches, the loop for the username exhausts the stack
  of the engine at its iteration 5592377 and \<open>exec\<close> throws a \<open>RangeError\<close>, which
  \<open>parseLineFromPs\<close> does not catch.
\<close>

theorem parseLineFromPs_throws_counterexample:
  "parseLineFromPs (js ''1 '' @ replicate 5999999 0x78 @ js ''  '') 6000000 1 = Inl RangeError"
proof -
  have "psCaptures (js ''1 '' @ replicate 5999999 0x78 @ js ''  '') 6000000 1 = Inl RangeError"
    by (rule long_line_overflow) (simp_all add: stackLimit_def)
  then show ?thesis by (rule throws_RangeError)
qed
subsection \<open>C2: the description\<close>




subsection \<open>C3: the round trip\<close>

lemma trim_padded:
  assumes "s \<noteq> []" "\<not> isSpace (hd s)" "\<not> isSpace (last s)"
  shows "trim (s @ replicate m 0x20) = s"
proof -
  have a: "dropWhile isSpace (s @ replicate m 0x20) = s @ replicate m 0x20"
    using assms by (cases s) simp_all
  have b: "dropWhile isSpace (replicate m 0x20 @ rev s) = dropWhile isSpace (rev s)"
    by (rule dropWhile_append2) (simp add: space_facts)
  have c: "dropWhile isSpace (rev s) = rev s"
    using assms by (simp add: dropWhile_eq_self_iff hd_rev)
  show ?thesis by (simp add: trim_def a b c)
qed

lemma trim_noSurroundingSpace_id: "noSurroundingSpace s \<Longrightarrow> trim s = s"
proof (cases "s = []")
  case True
  then show ?thesis by (simp add: trim_def)
next
  case False
  assume "noSurroundingSpace s"
  with False show ?thesis by (simp add: noSurroundingSpace_def trim_id)
qed

lemma padEnd_column:
  assumes "int (length s) \<le> w - 1"
  shows "padEnd s (nat w) = (s @ replicate (nat (w - 1) - length s) 0x20) @ [0x20]"
proof -
  have "nat w - length s = Suc (nat (w - 1) - length s)" using assms by linarith
  then show ?thesis by (simp add: padEnd_def replicate_append_same)
qed

lemma captures_decomposed:
  assumes widths: "0 < u" "u \<le> 2 ^ 53" "0 < c" "c \<le> 2 ^ 53"
    and len: "length (w0 @ ds @ w1 @ f1 @ w2 @ f2 @ w3 @ f3) < stackLimit"
    and w0: "list_all isSpace w0"
    and ds: "ds \<noteq> []" "list_all isDecimalDigit ds"
    and w1: "w1 \<noteq> []" "list_all isSpace w1"
    and f1: "f1 \<noteq> []" "\<not> isSpace (hd f1)" "list_all (\<lambda>x. \<not> isLineTerminator x) f1"
       "length f1 = nat (u - 1)"
    and w2: "w2 \<noteq> []" "list_all isSpace w2"
    and f2: "f2 \<noteq> []" "\<not> isSpace (hd f2)" "list_all (\<lambda>x. \<not> isLineTerminator x) f2"
       "length f2 = nat (c - 1)"
    and w3: "w3 \<noteq> []" "list_all isSpace w3"
    and f3: "f3 = [] \<or> \<not> isSpace (hd f3)" "list_all (\<lambda>x. \<not> isLineTerminator x) f3"
  shows "psCaptures (w0 @ ds @ w1 @ f1 @ w2 @ f2 @ w3 @ f3) u c
           = Inr (Some (ds, trim f1, trim f2, trim f3))"
proof -
  let ?line = "w0 @ ds @ w1 @ f1 @ w2 @ f2 @ w3 @ f3"
  let ?ast = "psAst (Repeat (nat (u - 1)) (Some (nat (u - 1))) (Chars AnyChar))
                    (Repeat (nat (c - 1)) (Some (nat (c - 1))) (Chars AnyChar))"
  have "firstMatch
           (psAst (Repeat (length f1) (Some (length f1)) (Chars AnyChar))
                  (Repeat (length f2) (Some (length f2)) (Chars AnyChar)))
           (0, ?line, [None, None, None, None, None])
           (length ?line, [], [None, Some ds, Some f1, Some f2, Some f3])"
    by (rule first_psAst [OF w0 ds w1 f1(1,2,3) w2 f2(1,2,3) w3 f3])
  then obtain ys where m: "ecma_matcher ?ast (0, ?line, [None, None, None, None, None])
         = (length ?line, [], [None, Some ds, Some f1, Some f2, Some f3]) # ys"
    unfolding f1(4) f2(4) using firstMatchD by blast
  have "ecma_exec ?ast ?line = Some [Some ?line, Some ds, Some f1, Some f2, Some f3]"
    by (subst exec_psAst [OF groups_fixed groups_fixed], subst m) simp
  moreover have "RegExp_exec ?ast ?line = Inr (ecma_exec ?ast ?line)"
    by (rule RegExp_exec_ok [OF _ disjI2 [OF len] ]) (simp add: psAst_def)
  ultimately have e: "RegExp_exec ?ast ?line = Inr (Some [Some ?line, Some ds, Some f1, Some f2, Some f3])"
    by simp
  show ?thesis
    apply (subst psCaptures_def)
    apply (subst RegExp_psEntry_source [OF widths])
    apply (simp only: sum.case)
    apply (subst e)
    apply (simp add: trim_method_def trim_digits [OF ds] del: append_assoc)
    done
qed

lemma round_trip_captures:
  assumes widths: "0 < u" "u \<le> 2 ^ 53" "0 < c" "c \<le> 2 ^ 53"
    and len: "length (psLine p username executable commandLine u c) < stackLimit"
    and p: "p \<le> 2 ^ 53"
    and un: "username \<noteq> []" "noSurroundingSpace username"
       "list_all (\<lambda>x. \<not> isLineTerminator x) username" "int (length username) \<le> u - 1"
    and ex: "executable \<noteq> []" "noSurroundingSpace executable"
       "list_all (\<lambda>x. \<not> isLineTerminator x) executable" "int (length executable) \<le> c - 1"
    and cl: "noSurroundingSpace commandLine" "list_all (\<lambda>x. \<not> isLineTerminator x) commandLine"
  shows "psCaptures (psLine p username executable commandLine u c) u c
           = Inr (Some (decimal p, username, executable, commandLine))"
proof -
  let ?w0 = "replicate (5 - length (decimal p)) 0x20 :: jsstring"
  let ?f1 = "username @ replicate (nat (u - 1) - length username) 0x20"
  let ?f2 = "executable @ replicate (nat (c - 1) - length executable) 0x20"
  let ?sp = "[0x20, 0x20] :: jsstring"
  let ?line = "?w0 @ decimal p @ [0x20] @ ?f1 @ ?sp @ ?f2 @ ?sp @ commandLine"
  have pt: "ToString (toNumber (int p)) = decimal p"
  proof -
    have "int p \<le> int (2 ^ 53)" using p by (simp only: of_nat_le_iff)
    then have "int p \<le> 2 ^ 53" by simp
    then show ?thesis using ToString_toNumber_small [of "int p"] by simp
  qed
  have line: "psLine p username executable commandLine u c = ?line"
    by (simp add: psLine_def pt padStart_def padEnd_column [OF un(4)] padEnd_column [OF ex(4)])
  have hu: "\<not> isSpace (hd username)" "\<not> isSpace (last username)"
    using un(1,2) by (simp_all add: noSurroundingSpace_def)
  have he: "\<not> isSpace (hd executable)" "\<not> isSpace (last executable)"
    using ex(1,2) by (simp_all add: noSurroundingSpace_def)
  have "psCaptures ?line u c = Inr (Some (decimal p, trim ?f1, trim ?f2, trim commandLine))"
  proof (rule captures_decomposed [OF widths])
    show "length ?line < stackLimit" using len unfolding line .
    show "list_all isSpace ?w0" by (simp add: list_all_iff space_facts)
    show "decimal p \<noteq> []" by (rule decimal_nonempty)
    show "list_all isDecimalDigit (decimal p)" by (rule decimal_digits)
    show "[0x20] \<noteq> ([] :: jsstring)" by simp
    show "list_all isSpace [0x20]" by (simp add: space_facts)
    show "?f1 \<noteq> []" using un(1) by simp
    show "\<not> isSpace (hd ?f1)" using un(1) hu by simp
    show "list_all (\<lambda>x. \<not> isLineTerminator x) ?f1"
      using un(3) by (auto simp: list_all_iff space_facts)
    show "length ?f1 = nat (u - 1)" using un(4) by simp
    show "?sp \<noteq> []" by simp
    show "list_all isSpace ?sp" by (simp add: space_facts)
    show "?f2 \<noteq> []" using ex(1) by simp
    show "\<not> isSpace (hd ?f2)" using ex(1) he by simp
    show "list_all (\<lambda>x. \<not> isLineTerminator x) ?f2"
      using ex(3) by (auto simp: list_all_iff space_facts)
    show "length ?f2 = nat (c - 1)" using ex(4) by simp
    show "?sp \<noteq> []" by simp
    show "list_all isSpace ?sp" by (simp add: space_facts)
    show "commandLine = [] \<or> \<not> isSpace (hd commandLine)"
      using cl(1) by (auto simp: noSurroundingSpace_def)
    show "list_all (\<lambda>x. \<not> isLineTerminator x) commandLine" by (rule cl(2))
  qed
  then show ?thesis
    unfolding line
    by (simp only: trim_padded [OF un(1) hu] trim_padded [OF ex(1) he]
        trim_noSurroundingSpace_id [OF cl(1)])
qed

text \<open>
  Claim C3, as amended. Take widths from 1 to \<open>2 ^ 53\<close> and a process record whose pid
  is an integer from 0 to \<open>2 ^ 53\<close>, whose username and executable are not empty, have
  no leading or trailing white space, contain no line terminator and have at most
  \<open>usernameWidth - 1\<close> and \<open>commandWidth - 1\<close> code units, and whose command line has
  no leading or trailing white space and no line terminator, such that the line that
  \<open>ps\<close> prints for the record has at most \<open>2 ^ 20\<close> code units (too short to exhaust
  the stack of the engine). Then \<open>parseLineFromPs\<close> on that line recovers the pid, the
  username, the executable and the command line.
\<close>

theorem round_trip:
  assumes "0 < u" "u \<le> 2 ^ 53" "0 < c" "c \<le> 2 ^ 53"
    and "length (psLine p username executable commandLine u c) \<le> 1048576"
    and "p \<le> 2 ^ 53"
    and "username \<noteq> []" "noSurroundingSpace username"
       "list_all (\<lambda>x. \<not> isLineTerminator x) username" "int (length username) \<le> u - 1"
    and "executable \<noteq> []" "noSurroundingSpace executable"
       "list_all (\<lambda>x. \<not> isLineTerminator x) executable" "int (length executable) \<le> c - 1"
    and "noSurroundingSpace commandLine" "list_all (\<lambda>x. \<not> isLineTerminator x) commandLine"
  shows "psCaptures (psLine p username executable commandLine u c) u c
           = Inr (Some (decimal p, username, executable, commandLine)) \<and>
         parseLineFromPs (psLine p username executable commandLine u c) u c
           = Inr (Some \<lparr> pid = Finite (int p),
                          label = username @ js '':'' @ executable,
                          description = decimal p,
                          detail = commandLine \<rparr>)"
proof -
  have "length (psLine p username executable commandLine u c) < stackLimit"
    using assms(5) by (simp add: stackLimit_def)
  then have c: "psCaptures (psLine p username executable commandLine u c) u c
           = Inr (Some (decimal p, username, executable, commandLine))"
    using assms(1-4,6-16) by (intro round_trip_captures)
  have "int p \<le> int (2 ^ 53)" using assms(6) by (simp only: of_nat_le_iff)
  then have "roundToDouble p = Some p" using assms(6) by (intro roundToDouble_small)
  then have "Number (decimal p) = Inr (Finite (int p))"
    by (simp add: Number_def decimal_nonempty decimal_digits digitsValue_decimal toNumber_def)
  then show ?thesis
    unfolding parseLineFromPs_def c by simp
qed

lemma sample_psLine:
  "psLine 1 (js ''root'') (js ''systemd'') (js ''/sbin/init'') 20 50
     = js ''    1 root                 systemd                                            /sbin/init''"
proof -
  have "ToString (toNumber 1) = js ''1''"
    by (simp add: toNumber_def roundToDouble_def natToString_def shortest_def decimal.simps
        digitChar_def js_def)
  then show ?thesis
    by (simp add: psLine_def padStart_def padEnd_def js_def eval_nat_numeral)
qed

theorem round_trip_witness:
  "(0::int) < 20 \<and> (20::int) \<le> 2 ^ 53 \<and> (0::int) < 50 \<and> (50::int) \<le> 2 ^ 53 \<and>
   length (psLine 1 (js ''root'') (js ''systemd'') (js ''/sbin/init'') 20 50) \<le> 1048576 \<and>
   (1::nat) \<le> 2 ^ 53 \<and>
   js ''root'' \<noteq> [] \<and> noSurroundingSpace (js ''root'') \<and>
   list_all (\<lambda>x. \<not> isLineTerminator x) (js ''root'') \<and> int (length (js ''root'')) \<le> 20 - 1 \<and>
   js ''systemd'' \<noteq> [] \<and> noSurroundingSpace (js ''systemd'') \<and>
   list_all (\<lambda>x. \<not> isLineTerminator x) (js ''systemd'') \<and>
   int (length (js ''systemd'')) \<le> 50 - 1 \<and>
   noSurroundingSpace (js ''/sbin/init'') \<and>
   list_all (\<lambda>x. \<not> isLineTerminator x) (js ''/sbin/init'') \<and>
   psLine 1 (js ''root'') (js ''systemd'') (js ''/sbin/init'') 20 50
     = js ''    1 root                 systemd                                            /sbin/init'' \<and>
   parseLineFromPs (psLine 1 (js ''root'') (js ''systemd'') (js ''/sbin/init'') 20 50) 20 50
     = Inr (Some \<lparr> pid = Finite 1, label = js ''root'' @ js '':'' @ js ''systemd'',
                    description = js ''1'', detail = js ''/sbin/init'' \<rparr>)"
proof -
  have h: "js ''root'' \<noteq> []" "noSurroundingSpace (js ''root'')"
    "list_all (\<lambda>x. \<not> isLineTerminator x) (js ''root'')" "int (length (js ''root'')) \<le> 20 - 1"
    "js ''systemd'' \<noteq> []" "noSurroundingSpace (js ''systemd'')"
    "list_all (\<lambda>x. \<not> isLineTerminator x) (js ''systemd'')"
    "int (length (js ''systemd'')) \<le> 50 - 1"
    "noSurroundingSpace (js ''/sbin/init'')"
    "list_all (\<lambda>x. \<not> isLineTerminator x) (js ''/sbin/init'')"
    by (simp_all add: js_def noSurroundingSpace_def isSpace_def isWhiteSpace_def isLineTerminator_def)
  have d: "decimal (Suc 0) = js ''1''" by (simp add: decimal.simps digitChar_def js_def)
  have l: "length (psLine 1 (js ''root'') (js ''systemd'') (js ''/sbin/init'') 20 50) \<le> 1048576"
    unfolding sample_psLine by (simp add: js_def)
  from round_trip [of 20 50 1 "js ''root''" "js ''systemd''" "js ''/sbin/init''", OF _ _ _ _ l _ h]
  show ?thesis using h l sample_psLine by (simp add: d)
qed

lemma psLine_overflow:
  assumes widths: "0 < u" "u \<le> 2 ^ 53" "0 < c" "c \<le> 2 ^ 53"
    and big: "int stackLimit < u - 1"
    and p: "p \<le> 2 ^ 53"
    and un: "username \<noteq> []" "\<not> isSpace (hd username)"
       "list_all (\<lambda>x. \<not> isLineTerminator x) username"
  shows "psCaptures (psLine p username executable commandLine u c) u c = Inl RangeError"
proof -
  let ?w0 = "replicate (5 - length (decimal p)) 0x20 :: jsstring"
  let ?rest = "padEnd username (nat u) @ 0x20 # padEnd executable (nat c) @ 0x20 # commandLine"
  have pt: "ToString (toNumber (int p)) = decimal p"
  proof -
    have "int p \<le> int (2 ^ 53)" using p by (simp only: of_nat_le_iff)
    then have "int p \<le> 2 ^ 53" by simp
    then show ?thesis using ToString_toNumber_small [of "int p"] by simp
  qed
  have line: "psLine p username executable commandLine u c = ?w0 @ decimal p @ [0x20] @ ?rest"
    by (simp add: psLine_def pt padStart_def)
  have "list_all (charset_mem AnyChar) (padEnd username (nat u))"
    using un(3) by (auto simp: padEnd_def list_all_iff space_facts)
  then have "length (padEnd username (nat u)) \<le> run AnyChar ?rest"
    by (rule run_prefix)
  moreover have "nat u \<le> length (padEnd username (nat u))"
    by (simp add: padEnd_def)
  ultimately have r: "stackLimit \<le> run AnyChar ?rest"
    using big by linarith
  have ne: "?rest \<noteq> []" using un(1) by (simp add: padEnd_def)
  have h: "\<not> isSpace (hd ?rest)" using un(1,2) by (simp add: padEnd_def)
  have w0: "list_all isSpace ?w0" by (simp add: list_all_iff space_facts)
  have w1: "[0x20] \<noteq> ([] :: jsstring)" "list_all isSpace [0x20 :: code_unit]"
    by (simp_all add: space_facts)
  show ?thesis
    unfolding line
    by (rule captures_overflow [OF widths big w0 decimal_nonempty decimal_digits w1 ne h r])
qed

text \<open>
  The claim as stated fails in three ways. A username that fills its column of 20
  code units is trimmed and fits the width, but the pattern captures 19 code units
  and wants white space after them: the line has no match. With an empty executable
  the white space before the pattern's third group runs on to the command line, whose
  first 49 code units are then taken for the executable. And at the widths 6000000
  and 50 the line of the record of the sample output makes the loop for the username
  exhaust the stack of the engine: \<open>exec\<close> throws a \<open>RangeError\<close>.
\<close>

theorem round_trip_counterexample:
  "trim (js ''abcdefghijklmnopqrst'') = js ''abcdefghijklmnopqrst'' \<and>
   int (length (js ''abcdefghijklmnopqrst'')) \<le> 20 \<and>
   parseLineFromPs
     (psLine 1 (js ''abcdefghijklmnopqrst'') (js ''systemd'') (js ''/sbin/init'') 20 50) 20 50
     = Inr None \<and>
   trim (js '''') = js '''' \<and>
   trim (js ''aaaaaaaaaaaaaaaaaaaaaaaaaaaaaaaaaaaaaaaaaaaaaaaaa b'')
     = js ''aaaaaaaaaaaaaaaaaaaaaaaaaaaaaaaaaaaaaaaaaaaaaaaaa b'' \<and>
   parseLineFromPs
     (psLine 1 (js ''root'') (js '''')
        (js ''aaaaaaaaaaaaaaaaaaaaaaaaaaaaaaaaaaaaaaaaaaaaaaaaa b'') 20 50) 20 50
     = Inr (Some \<lparr> pid = Finite 1,
                    label = js ''root:aaaaaaaaaaaaaaaaaaaaaaaaaaaaaaaaaaaaaaaaaaaaaaaaa'',
                    description = js ''1'', detail = js ''b'' \<rparr>) \<and>
   int (length (js ''root'')) \<le> 6000000 - 1 \<and> int (length (js ''systemd'')) \<le> 50 - 1 \<and>
   parseLineFromPs
     (psLine 1 (js ''root'') (js ''systemd'') (js ''/sbin/init'') 6000000 50) 6000000 50
     = Inl RangeError"
proof -
  have "psCaptures (psLine 1 (js ''root'') (js ''systemd'') (js ''/sbin/init'') 6000000 50) 6000000 50
     = Inl RangeError"
    by (rule psLine_overflow)
       (simp_all add: stackLimit_def js_def isSpace_def isWhiteSpace_def isLineTerminator_def)
  then have p3: "parseLineFromPs
     (psLine 1 (js ''root'') (js ''systemd'') (js ''/sbin/init'') 6000000 50) 6000000 50
     = Inl RangeError"
    by (rule throws_RangeError)
  have one: "ToString (toNumber 1) = js ''1''"
    by (simp add: toNumber_def roundToDouble_def natToString_def shortest_def decimal.simps
        digitChar_def js_def)
  have t: "trim (js ''abcdefghijklmnopqrst'') = js ''abcdefghijklmnopqrst''"
    "trim (js '''') = js ''''"
    "trim (js ''aaaaaaaaaaaaaaaaaaaaaaaaaaaaaaaaaaaaaaaaaaaaaaaaa b'')
       = js ''aaaaaaaaaaaaaaaaaaaaaaaaaaaaaaaaaaaaaaaaaaaaaaaaa b''"
    by (simp_all add: eval_defs)
  have l1: "psLine 1 (js ''abcdefghijklmnopqrst'') (js ''systemd'') (js ''/sbin/init'') 20 50
     = js ''    1 abcdefghijklmnopqrst systemd                                            /sbin/init''"
    by (simp add: psLine_def padStart_def padEnd_def one) (simp add: js_def eval_nat_numeral)
  have c1: "psCaptures (js ''    1 abcdefghijklmnopqrst systemd                                            /sbin/init'') 20 50
     = Inr None"
    unfolding psCaptures_def RegExp_20_50
    by (simp add: eval_defs psAst_def)
  have p1: "parseLineFromPs
     (psLine 1 (js ''abcdefghijklmnopqrst'') (js ''systemd'') (js ''/sbin/init'') 20 50) 20 50
     = Inr None"
    unfolding l1 parseLineFromPs_def c1 by simp
  have l2: "psLine 1 (js ''root'') (js '''')
        (js ''aaaaaaaaaaaaaaaaaaaaaaaaaaaaaaaaaaaaaaaaaaaaaaaaa b'') 20 50
     = js ''    1 root                                                                    aaaaaaaaaaaaaaaaaaaaaaaaaaaaaaaaaaaaaaaaaaaaaaaaa b''"
    by (simp add: psLine_def padStart_def padEnd_def one) (simp add: js_def eval_nat_numeral)
  have c2: "psCaptures (js ''    1 root                                                                    aaaaaaaaaaaaaaaaaaaaaaaaaaaaaaaaaaaaaaaaaaaaaaaaa b'') 20 50
     = Inr (Some (js ''1'', js ''root'', js ''aaaaaaaaaaaaaaaaaaaaaaaaaaaaaaaaaaaaaaaaaaaaaaaaa'', js ''b''))"
  proof -
    let ?f1 = "js ''root               ''"
    let ?w2 = "js ''                                                     ''"
    let ?f2 = "js ''aaaaaaaaaaaaaaaaaaaaaaaaaaaaaaaaaaaaaaaaaaaaaaaaa''"
    have "psCaptures (js ''    '' @ js ''1'' @ js '' '' @ ?f1 @ ?w2 @ ?f2 @ js '' '' @ js ''b'') 20 50
      = Inr (Some (js ''1'', trim ?f1, trim ?f2, trim (js ''b'')))"
      by (rule captures_decomposed) (simp_all add: eval_defs)
    then show ?thesis by (simp add: eval_defs)
  qed
  have p2: "parseLineFromPs
     (psLine 1 (js ''root'') (js '''')
        (js ''aaaaaaaaaaaaaaaaaaaaaaaaaaaaaaaaaaaaaaaaaaaaaaaaa b'') 20 50) 20 50
     = Inr (Some \<lparr> pid = Finite 1,
                    label = js ''root:aaaaaaaaaaaaaaaaaaaaaaaaaaaaaaaaaaaaaaaaaaaaaaaaa'',
                    description = js ''1'', detail = js ''b'' \<rparr>)"
    unfolding l2 parseLineFromPs_def c2 by (simp add: Number_1) (simp add: js_def)
  show ?thesis using t p1 p2 p3 by (simp add: js_def)
qed

end
